theory Spec2Isabelle
  imports Main "HOL-Library.Sublist"
begin

section \<open>Python strings, lists and exceptions\<close>

text \<open>
  Text is a \<^typ>\<open>string\<close>: a list of 8-bit characters, read as the code points 0..255.
  On these, \<^verbatim>\<open>str.isspace\<close> (which both \<^verbatim>\<open>str.strip()\<close> and the regular
  expression class \<^verbatim>\<open>\s\<close> use) holds of the twelve characters of \<open>whitespace\<close>,
  and the class \<^verbatim>\<open>\d\<close> holds of the ten ASCII digits. \<^verbatim>\<open>str.upper\<close> can leave the
  range (it sends U+00B5 to U+039C and U+00FF to U+0178) and can lengthen the text (it
  sends U+00DF to SS), so its result is a list of code points.

  The exceptions the modelled code can raise are values of \<open>error\<close>; a function that can
  raise returns \<open>error + 'a\<close>, with \<open>Inl\<close> for the exception.
\<close>

datatype error = IndexError | TypeError | ValueError | EOFError

definition bindE :: "error + 'a \<Rightarrow> ('a \<Rightarrow> error + 'b) \<Rightarrow> error + 'b" where
  "bindE m f = (case m of Inl e \<Rightarrow> Inl e | Inr x \<Rightarrow> f x)"

definition whitespace :: string where
  "whitespace = [CHR 0x09, CHR 0x0A, CHR 0x0B, CHR 0x0C, CHR 0x0D, CHR 0x1C, CHR 0x1D,
                 CHR 0x1E, CHR 0x1F, CHR 0x20, CHR 0x85, CHR 0xA0]"

definition isspace :: "char \<Rightarrow> bool" where
  "isspace c = (c \<in> set whitespace)"

definition isdigit :: "char \<Rightarrow> bool" where
  "isdigit c = (c \<in> set ''0123456789'')"

definition any_char :: "char \<Rightarrow> bool" where
  "any_char c = True"

definition letter_A_to_D :: "char \<Rightarrow> bool" where
  "letter_A_to_D c = (c \<in> set ''ABCD'')"

text \<open>\<^verbatim>\<open>s.strip()\<close>: leading and trailing whitespace removed.\<close>

definition strip :: "string \<Rightarrow> string" where
  "strip s = rev (dropWhile isspace (rev (dropWhile isspace s)))"

text \<open>The code points of a text, which \<^verbatim>\<open>==\<close> compares.\<close>

definition code_points :: "string \<Rightarrow> nat list" where
  "code_points s = map of_char s"

text \<open>
  \<^verbatim>\<open>s.upper()\<close>, as code points. Of the code points 0..255, Unicode's upper-casing
  changes a to z (97..122), the micro sign (181, to Greek capital mu, 924), sharp s
  (223, to the two letters SS), the Latin-1 small letters 224..254 but for the
  division sign 247 (each to the letter 32 below it), and y with diaeresis (255, to
  376).
\<close>

definition upper_char :: "char \<Rightarrow> nat list" where
  "upper_char c =
     (let n = of_char c in
      if 97 \<le> n \<and> n \<le> 122 then [n - 32]
      else if n = 181 then [924]
      else if n = 223 then [83, 83]
      else if 224 \<le> n \<and> n \<le> 254 \<and> n \<noteq> 247 then [n - 32]
      else if n = 255 then [376]
      else [n])"

definition upper :: "string \<Rightarrow> nat list" where
  "upper s = concat (map upper_char s)"

text \<open>\<^verbatim>\<open>s.split(sep)\<close> for a one-character separator: every piece, at least one.\<close>

fun split_chr :: "char \<Rightarrow> string \<Rightarrow> string list" where
  "split_chr sep [] = [[]]"
| "split_chr sep (c # cs) =
     (if c = sep then [] # split_chr sep cs
      else (case split_chr sep cs of
              p # ps \<Rightarrow> (c # p) # ps
            | [] \<Rightarrow> [[c]]))"

text \<open>\<^verbatim>\<open>s.split(sep, maxsplit)\<close>: at most \<open>maxsplit\<close> cuts, from the left.\<close>

fun split_max :: "char \<Rightarrow> nat \<Rightarrow> string \<Rightarrow> string list" where
  "split_max sep 0 s = [s]"
| "split_max sep (Suc n) [] = [[]]"
| "split_max sep (Suc n) (c # cs) =
     (if c = sep then [] # split_max sep n cs
      else (case split_max sep (Suc n) cs of
              p # ps \<Rightarrow> (c # p) # ps
            | [] \<Rightarrow> [[c]]))"

text \<open>\<^verbatim>\<open>xs[i]\<close> for a literal index \<open>i \<ge> 0\<close>: IndexError out of range.\<close>

definition nth_py :: "'a list \<Rightarrow> nat \<Rightarrow> error + 'a" where
  "nth_py xs i = (if i < length xs then Inr (xs ! i) else Inl IndexError)"

text \<open>\<^verbatim>\<open>sep.join(parts)\<close>.\<close>

fun join :: "string \<Rightarrow> string list \<Rightarrow> string" where
  "join sep [] = []"
| "join sep [p] = p"
| "join sep (p # q # ps) = p @ sep @ join sep (q # ps)"

text \<open>
  \<^verbatim>\<open>int(s)\<close> on a string of ASCII digits. CPython (3.11, and the security releases of
  3.7 to 3.10) refuses a decimal string of more than 4300 digits with ValueError.
\<close>

definition digit_val :: "char \<Rightarrow> int" where
  "digit_val c = int (of_char c) - 48"

definition py_int :: "string \<Rightarrow> error + int" where
  "py_int ds =
     (if 4300 < length ds then Inl ValueError
      else Inr (foldl (\<lambda>a c. 10 * a + digit_val c) 0 ds))"

text \<open>\<^verbatim>\<open>str(n)\<close> for an integer, as an f-string renders it.\<close>

fun str_nat :: "nat \<Rightarrow> string" where
  "str_nat n =
     (if n < 10 then [char_of (48 + n)]
      else str_nat (n div 10) @ [char_of (48 + n mod 10)])"

declare str_nat.simps [simp del]

definition str_int :: "int \<Rightarrow> string" where
  "str_int i = (if i < 0 then CHR ''-'' # str_nat (nat (- i)) else str_nat (nat i))"

section \<open>The regular expressions of the two parsers\<close>

text \<open>
  Both patterns of the program are sequences of literals and of repetitions of a
  character class, some of them groups. \<open>bt\<close> is the backtracking matcher of \<^verbatim>\<open>re\<close>
  on such a sequence, anchored at the start of its input: a greedy repetition tries the
  longest run first, a lazy one the shortest, and the first alternative under which the
  rest of the pattern matches wins. It returns the text each atom matched and the
  unread rest of the input.
\<close>

datatype atom =
    Lit string                \<comment> \<open>literal text\<close>
  | One "char \<Rightarrow> bool"        \<comment> \<open>one character of a class: \<^verbatim>\<open>[A-D]\<close>\<close>
  | Star "char \<Rightarrow> bool"       \<comment> \<open>greedy \<^verbatim>\<open>*\<close>\<close>
  | Plus "char \<Rightarrow> bool"       \<comment> \<open>greedy \<^verbatim>\<open>+\<close>\<close>
  | Lazy "char \<Rightarrow> bool"       \<comment> \<open>lazy \<^verbatim>\<open>*?\<close>\<close>

datatype item = Plain atom | Group atom

fun unwrap :: "item \<Rightarrow> atom" where
  "unwrap (Plain a) = a"
| "unwrap (Group a) = a"

fun is_group :: "item \<Rightarrow> bool" where
  "is_group (Plain a) = False"
| "is_group (Group a) = True"

definition first_piece :: "string \<Rightarrow> (string list \<times> string) option \<Rightarrow> (string list \<times> string) option" where
  "first_piece g m = (case m of None \<Rightarrow> None | Some (ps, r) \<Rightarrow> Some (g # ps, r))"

definition grow :: "char \<Rightarrow> (string list \<times> string) option \<Rightarrow> (string list \<times> string) option" where
  "grow c m = (case m of None \<Rightarrow> None | Some (ps, r) \<Rightarrow> Some ((c # hd ps) # tl ps, r))"

fun bt :: "atom list \<Rightarrow> string \<Rightarrow> (string list \<times> string) option" where
  "bt [] s = Some ([], s)"
| "bt (Lit l # as) s =
     (if take (length l) s = l then first_piece l (bt as (drop (length l) s)) else None)"
| "bt (One p # as) [] = None"
| "bt (One p # as) (c # s) = (if p c then first_piece [c] (bt as s) else None)"
| "bt (Star p # as) [] = first_piece [] (bt as [])"
| "bt (Star p # as) (c # s) =
     (case (if p c then grow c (bt (Star p # as) s) else None) of
        Some m \<Rightarrow> Some m
      | None \<Rightarrow> first_piece [] (bt as (c # s)))"
| "bt (Plus p # as) [] = None"
| "bt (Plus p # as) (c # s) =
     (if p c then
        (case grow c (bt (Plus p # as) s) of
           Some m \<Rightarrow> Some m
         | None \<Rightarrow> first_piece [c] (bt as s))
      else None)"
| "bt (Lazy p # as) [] = first_piece [] (bt as [])"
| "bt (Lazy p # as) (c # s) =
     (case first_piece [] (bt as (c # s)) of
        Some m \<Rightarrow> Some m
      | None \<Rightarrow> (if p c then grow c (bt (Lazy p # as) s) else None))"

definition captures :: "item list \<Rightarrow> string list \<Rightarrow> string list" where
  "captures pat ps = map snd (filter (\<lambda>(i, p). is_group i) (zip pat ps))"

text \<open>
  \<^verbatim>\<open>re.findall(pat, s)\<close>: the groups of the successive non-overlapping matches, the
  search for the next match starting where the last one ended. (The patterns of this
  program match at least one character; after an empty match the model moves on by one
  character.)
\<close>

function findall :: "item list \<Rightarrow> string \<Rightarrow> string list list" where
  "findall pat s =
     (case bt (map unwrap pat) s of
        Some (ps, r) \<Rightarrow>
          (if length r < length s then captures pat ps # findall pat r
           else captures pat ps # (case s of [] \<Rightarrow> [] | c # s' \<Rightarrow> findall pat s'))
      | None \<Rightarrow> (case s of [] \<Rightarrow> [] | c # s' \<Rightarrow> findall pat s'))"
  by pat_completeness auto
termination
  by (relation "measure (\<lambda>(pat, s). length s)") auto

declare findall.simps [simp del]

text \<open>
  \<^verbatim>\<open>re.split(pat, s)\<close>: the text between the successive matches (and the groups of each
  match, when the pattern has any). \<open>acc\<close> holds the current piece, reversed. (The
  marker of this program matches at least three characters; the model does not split
  at an empty match.)
\<close>

function re_split_from :: "item list \<Rightarrow> string \<Rightarrow> string \<Rightarrow> string list" where
  "re_split_from pat acc s =
     (case s of
        [] \<Rightarrow> [rev acc]
      | c # s' \<Rightarrow>
          (case bt (map unwrap pat) s of
             Some (ps, r) \<Rightarrow>
               (if length r < length s then rev acc # captures pat ps @ re_split_from pat [] r
                else re_split_from pat (c # acc) s')
           | None \<Rightarrow> re_split_from pat (c # acc) s'))"
  by pat_completeness auto
termination
  by (relation "measure (\<lambda>(pat, acc, s). length s)") auto

declare re_split_from.simps [simp del]

definition re_split :: "item list \<Rightarrow> string \<Rightarrow> string list" where
  "re_split pat s = re_split_from pat [] s"

section \<open>The Output Parser of QGtestrun3.py: \<^verbatim>\<open>parse_quiz_output\<close>\<close>

text \<open>
  \<^verbatim>\<open>Q(\d+)\.\s*(.*?)\s*A\)\s*(.*?)\s*B\)\s*(.*?)\s*C\)\s*(.*?)\s*D\)\s*(.*?)\s*Answer:\s*([A-D])\<close>
  under \<^verbatim>\<open>re.S\<close>, where the dot matches every character.
\<close>

definition quiz_pattern :: "item list" where
  "quiz_pattern =
     [Plain (Lit ''Q''), Group (Plus isdigit), Plain (Lit ''.''),
      Plain (Star isspace), Group (Lazy any_char), Plain (Star isspace), Plain (Lit ''A)''),
      Plain (Star isspace), Group (Lazy any_char), Plain (Star isspace), Plain (Lit ''B)''),
      Plain (Star isspace), Group (Lazy any_char), Plain (Star isspace), Plain (Lit ''C)''),
      Plain (Star isspace), Group (Lazy any_char), Plain (Star isspace), Plain (Lit ''D)''),
      Plain (Star isspace), Group (Lazy any_char), Plain (Star isspace), Plain (Lit ''Answer:''),
      Plain (Star isspace), Group (One letter_A_to_D)]"

record parsed =
  p_question_no :: int
  p_question :: string
  p_A :: string
  p_B :: string
  p_C :: string
  p_D :: string
  p_answer :: string

text \<open>
  The body of the loop over the matches: the tuple is unpacked into seven names (a tuple
  of another length would raise ValueError), and the dictionary is built.
\<close>

definition parsed_of_match :: "string list \<Rightarrow> error + parsed" where
  "parsed_of_match m =
     (case m of
        [qno, q, a, b, c, d, ans] \<Rightarrow>
          bindE (py_int qno) (\<lambda>n.
            Inr \<lparr>p_question_no = n, p_question = strip q, p_A = strip a, p_B = strip b,
                 p_C = strip c, p_D = strip d, p_answer = strip ans\<rparr>)
      | _ \<Rightarrow> Inl ValueError)"

fun parsed_of_matches :: "string list list \<Rightarrow> error + parsed list" where
  "parsed_of_matches [] = Inr []"
| "parsed_of_matches (m # ms) =
     (case parsed_of_match m of
        Inl e \<Rightarrow> Inl e
      | Inr q \<Rightarrow> (case parsed_of_matches ms of Inl e \<Rightarrow> Inl e | Inr qs \<Rightarrow> Inr (q # qs)))"

definition parse_quiz_output :: "string \<Rightarrow> error + parsed list" where
  "parse_quiz_output quiz_text = parsed_of_matches (findall quiz_pattern quiz_text)"

section \<open>The Output Parser of QGtestrun4.py: \<^verbatim>\<open>_parse_questions\<close>\<close>

text \<open>The marker \<^verbatim>\<open>Q\d+\.\<close> on which the text is split.\<close>

definition marker :: "item list" where
  "marker = [Plain (Lit ''Q''), Plain (Plus isdigit), Plain (Lit ''.'')]"

record cand =
  question :: string
  opt_A :: string
  opt_B :: string
  opt_C :: string
  opt_D :: string
  correct :: string

text \<open>\<^verbatim>\<open>lines[i].split(")", 1)[1].strip()\<close>\<close>

definition option_text :: "string list \<Rightarrow> nat \<Rightarrow> error + string" where
  "option_text lines i =
     bindE (nth_py lines i) (\<lambda>l.
     bindE (nth_py (split_max (CHR '')'') 1 l) 1) (\<lambda>t. Inr (strip t)))"

text \<open>The body of the loop over the blocks.\<close>

definition parse_block :: "string \<Rightarrow> error + cand" where
  "parse_block block =
     (let lines = split_chr (CHR 0x0A) (strip block) in
      bindE (nth_py lines 0) (\<lambda>l0.
      bindE (option_text lines 1) (\<lambda>a.
      bindE (option_text lines 2) (\<lambda>b.
      bindE (option_text lines 3) (\<lambda>c.
      bindE (option_text lines 4) (\<lambda>d.
      bindE (nth_py lines 5) (\<lambda>l5.
      bindE (nth_py (split_chr (CHR '':'') l5) 1) (\<lambda>t.
        Inr \<lparr>question = strip l0, opt_A = a, opt_B = b, opt_C = c, opt_D = d,
             correct = strip t\<rparr>))))))))"

fun parse_blocks :: "string list \<Rightarrow> error + cand list" where
  "parse_blocks [] = Inr []"
| "parse_blocks (b # bs) =
     (case parse_block b of
        Inl e \<Rightarrow> Inl e
      | Inr q \<Rightarrow> (case parse_blocks bs of Inl e \<Rightarrow> Inl e | Inr qs \<Rightarrow> Inr (q # qs)))"

definition parse_questions :: "string \<Rightarrow> error + cand list" where
  "parse_questions text = parse_blocks (tl (re_split marker text))"

section \<open>The stores and the external collaborators\<close>

text \<open>
  The MySQL tables the program reads and writes, each the list of its rows in insertion
  order, with the effects of a run that are not table rows: the prompts sent to the
  generation service, and the lines waiting on standard input. A \<^verbatim>\<open>WHERE col = %s\<close>
  is equality of the stored and the given text (a binary collation). \<open>connected\<close> is
  read by QGtestrun3.py only, whose \<^verbatim>\<open>Database\<close> keeps \<^verbatim>\<open>conn = None\<close> after a
  failed connection; QGtestrun4.py does not start without one. A statement or a
  generation call that fails (a MySQL error, a transport error) is outside the model:
  every store operation and every call of the service returns.
\<close>

record qrow =
  row_question_no :: int
  row_skill :: string
  row_mode :: string
  row_question :: string
  option_a :: string
  option_b :: string
  option_c :: string
  option_d :: string
  correct_answer :: string

record arow =
  row_resume_id :: int
  attempt_skill :: string
  attempt_mode :: string
  total_questions :: int
  correct_answers :: int

record world =
  connected :: bool
  skill_set :: "(string \<times> string) list"          \<comment> \<open>columns skills, Content\<close>
  quiz_questions :: "qrow list"
  resume_history :: "(int \<times> string) list"        \<comment> \<open>columns resume_id, question\<close>
  quiz_attempts :: "arow list"
  prompts_sent :: "string list"
  stdin :: "string list"

text \<open>
  The generation service is a function \<open>llm\<close> from the prompt to \<^verbatim>\<open>response.text\<close>,
  a parameter of everything that calls it; each call appends its prompt to
  \<open>prompts_sent\<close>.
\<close>

section \<open>QGtestrun4.py: the database handler\<close>

definition get_content_for_skill :: "world \<Rightarrow> string \<Rightarrow> string" where
  "get_content_for_skill w skill =
     join '' '' (map snd (filter (\<lambda>(s, content). s = skill) (skill_set w)))"

definition question_used_before :: "world \<Rightarrow> int \<Rightarrow> string \<Rightarrow> bool" where
  "question_used_before w resume_id q = ((resume_id, q) \<in> set (resume_history w))"

definition store_used_question :: "int \<Rightarrow> string \<Rightarrow> world \<Rightarrow> world" where
  "store_used_question resume_id q w =
     w\<lparr>resume_history := resume_history w @ [(resume_id, q)]\<rparr>"

text \<open>
  An accepted question: the candidate's dictionary with the keys \<^verbatim>\<open>question_no\<close>,
  \<^verbatim>\<open>skill\<close> and \<^verbatim>\<open>mode\<close> added.
\<close>

record accepted = cand +
  question_no :: int
  skill :: string
  mode :: string

definition store_question :: "accepted \<Rightarrow> world \<Rightarrow> world" where
  "store_question q w =
     w\<lparr>quiz_questions := quiz_questions w @
        [\<lparr>row_question_no = question_no q, row_skill = skill q, row_mode = mode q,
          row_question = question q, option_a = opt_A q, option_b = opt_B q,
          option_c = opt_C q, option_d = opt_D q, correct_answer = correct q\<rparr>]\<rparr>"

definition store_score :: "int \<Rightarrow> string \<Rightarrow> string \<Rightarrow> int \<Rightarrow> int \<Rightarrow> world \<Rightarrow> world" where
  "store_score resume_id sk lv n_total n_correct w =
     w\<lparr>quiz_attempts := quiz_attempts w @
        [\<lparr>row_resume_id = resume_id, attempt_skill = sk, attempt_mode = lv,
          total_questions = n_total, correct_answers = n_correct\<rparr>]\<rparr>"

section \<open>QGtestrun4.py: \<^verbatim>\<open>QuizGenerator.generate_unique_questions\<close>\<close>

definition build_prompt4 :: "string \<Rightarrow> string \<Rightarrow> int \<Rightarrow> string \<Rightarrow> string" where
  "build_prompt4 sk lv num_questions content =
     ''\<newline>Generate '' @ str_int num_questions @ '' '' @ lv @ ''-level MCQs for skill '' @ sk @
     ''.\<newline>Use this context: '' @ content @
     ''\<newline>\<newline>Format:\<newline>Q1. <question>\<newline>A) <option>\<newline>B) <option>\<newline>C) <option>\<newline>D) <option>\<newline>Answer: <letter>\<newline>''"

text \<open>
  The loop over the parsed candidates, with the loop's variables \<open>final_qs\<close> and \<open>q_no\<close>
  and the stores as its state.
\<close>

definition accept :: "cand \<Rightarrow> int \<Rightarrow> string \<Rightarrow> string \<Rightarrow> accepted" where
  "accept q q_no sk lv =
     \<lparr>question = question q, opt_A = opt_A q, opt_B = opt_B q, opt_C = opt_C q,
      opt_D = opt_D q, correct = correct q, question_no = q_no, skill = sk, mode = lv\<rparr>"

fun unique_loop ::
  "int \<Rightarrow> string \<Rightarrow> string \<Rightarrow> int \<Rightarrow> cand list \<Rightarrow> accepted list \<Rightarrow> int \<Rightarrow> world
     \<Rightarrow> accepted list \<times> int \<times> world" where
  "unique_loop resume_id sk lv num_questions [] final_qs q_no w = (final_qs, q_no, w)"
| "unique_loop resume_id sk lv num_questions (q # parsed) final_qs q_no w =
     (if int (length final_qs) = num_questions then (final_qs, q_no, w)
      else if \<not> question_used_before w resume_id (question q) then
        unique_loop resume_id sk lv num_questions parsed
          (final_qs @ [accept q q_no sk lv]) (q_no + 1)
          (store_question (accept q q_no sk lv)
             (store_used_question resume_id (question q) w))
      else unique_loop resume_id sk lv num_questions parsed final_qs q_no w)"

text \<open>What the method returns: the message (a \<^verbatim>\<open>str\<close>) or the accepted questions.\<close>

datatype outcome = Message string | Questions "accepted list"

definition generate_unique_questions ::
  "(string \<Rightarrow> string) \<Rightarrow> world \<Rightarrow> int \<Rightarrow> string \<Rightarrow> string \<Rightarrow> int \<Rightarrow> (error + outcome) \<times> world" where
  "generate_unique_questions llm w resume_id sk lv num_questions =
     (let content = get_content_for_skill w sk;
          prompt = build_prompt4 sk lv (num_questions * 2) content;
          w1 = w\<lparr>prompts_sent := prompts_sent w @ [prompt]\<rparr>
      in case parse_questions (llm prompt) of
           Inl e \<Rightarrow> (Inl e, w1)
         | Inr parsed \<Rightarrow>
             (case unique_loop resume_id sk lv num_questions parsed [] 1 w1 of
                (final_qs, q_no, w2) \<Rightarrow>
                  if int (length final_qs) < num_questions
                  then (Inr (Message ''Not enough unique questions found. Try again.''), w2)
                  else (Inr (Questions final_qs), w2)))"

section \<open>QGtestrun4.py: \<^verbatim>\<open>main\<close>, from the call of \<^verbatim>\<open>generate_unique_questions\<close> on\<close>

text \<open>
  The four values read before that call (skill, level, resume id, number of questions)
  are parameters. \<^verbatim>\<open>input()\<close> takes the next line of \<open>stdin\<close> and raises EOFError when
  there is none. \<^verbatim>\<open>ans == q["correct"]\<close> compares the upper-cased input with the stored
  text code point by code point. Printing is left out.
\<close>

fun quiz_loop :: "accepted list \<Rightarrow> int \<Rightarrow> world \<Rightarrow> (error + int) \<times> world" where
  "quiz_loop [] correct_count w = (Inr correct_count, w)"
| "quiz_loop (q # qs) correct_count w =
     (case stdin w of
        [] \<Rightarrow> (Inl EOFError, w)
      | line # rest \<Rightarrow>
          (let ans = upper (strip line) in
           quiz_loop qs
             (if ans = code_points (correct q) then correct_count + 1 else correct_count)
             (w\<lparr>stdin := rest\<rparr>)))"

text \<open>
  When \<^verbatim>\<open>qs\<close> is the message, \<^verbatim>\<open>for q in qs\<close> runs over its characters, and the first
  \<^verbatim>\<open>q['question_no']\<close> raises TypeError.
\<close>

definition main4 ::
  "(string \<Rightarrow> string) \<Rightarrow> world \<Rightarrow> int \<Rightarrow> string \<Rightarrow> string \<Rightarrow> int \<Rightarrow> (error + unit) \<times> world" where
  "main4 llm w resume_id sk lv num_q =
     (case generate_unique_questions llm w resume_id sk lv num_q of
        (Inl e, w1) \<Rightarrow> (Inl e, w1)
      | (Inr (Message m), w1) \<Rightarrow>
          (case m of
             [] \<Rightarrow> (Inr (), store_score resume_id sk lv num_q 0 w1)
           | ch # rest \<Rightarrow> (Inl TypeError, w1))
      | (Inr (Questions qs), w1) \<Rightarrow>
          (case quiz_loop qs 0 w1 of
             (Inl e, w2) \<Rightarrow> (Inl e, w2)
           | (Inr correct_count, w2) \<Rightarrow>
               (Inr (), store_score resume_id sk lv num_q correct_count w2)))"

section \<open>QGtestrun3.py: database handler, \<^verbatim>\<open>generate_quiz\<close> and \<^verbatim>\<open>main\<close>\<close>

definition get_all_topics :: "world \<Rightarrow> string list" where
  "get_all_topics w = (if \<not> connected w then [] else remdups (map fst (skill_set w)))"

definition get_content_for_skill3 :: "world \<Rightarrow> string \<Rightarrow> string" where
  "get_content_for_skill3 w sk =
     (if \<not> connected w then []
      else (let rows = filter (\<lambda>(s, content). s = sk) (skill_set w)
            in if rows \<noteq> [] then join '' '' (map snd rows) else []))"

definition save_question :: "int \<Rightarrow> string \<Rightarrow> string \<Rightarrow> parsed \<Rightarrow> world \<Rightarrow> bool \<times> world" where
  "save_question q_no sk lv q w =
     (if \<not> connected w then (False, w)
      else (True,
        w\<lparr>quiz_questions := quiz_questions w @
           [\<lparr>row_question_no = q_no, row_skill = sk, row_mode = lv,
             row_question = p_question q, option_a = p_A q, option_b = p_B q,
             option_c = p_C q, option_d = p_D q, correct_answer = p_answer q\<rparr>]\<rparr>))"

definition build_prompt3 :: "string \<Rightarrow> string \<Rightarrow> int \<Rightarrow> string \<Rightarrow> string" where
  "build_prompt3 sk lv num_questions content =
     ''\<newline>Generate '' @ str_int num_questions @ '' '' @ lv @
     ''-level multiple choice questions \<newline>based on the skill: '' @ sk @
     ''.\<newline>\<newline>Use this context:\<newline>'' @ content @
     ''\<newline>\<newline>Format Strictly:\<newline>Q1. <question>\<newline>A) <option>\<newline>B) <option>\<newline>C) <option>\<newline>D) <option>\<newline>Answer: <A/B/C/D>\<newline>''"

definition generate_quiz ::
  "(string \<Rightarrow> string) \<Rightarrow> world \<Rightarrow> string \<Rightarrow> string \<Rightarrow> int \<Rightarrow> string \<times> world" where
  "generate_quiz llm w sk lv num_questions =
     (let content = get_content_for_skill3 w sk in
      if content = [] then (''No content found for skill: '' @ sk, w)
      else (let prompt = build_prompt3 sk lv num_questions content
            in (strip (llm prompt), w\<lparr>prompts_sent := prompts_sent w @ [prompt]\<rparr>)))"

fun save_all :: "string \<Rightarrow> string \<Rightarrow> parsed list \<Rightarrow> world \<Rightarrow> world" where
  "save_all sk lv [] w = w"
| "save_all sk lv (q # qs) w = save_all sk lv qs (snd (save_question (p_question_no q) sk lv q w))"

text \<open>\<^verbatim>\<open>main\<close>, with the three values it reads (skill, level, number of questions) as parameters.\<close>

definition main3 ::
  "(string \<Rightarrow> string) \<Rightarrow> world \<Rightarrow> string \<Rightarrow> string \<Rightarrow> int \<Rightarrow> (error + unit) \<times> world" where
  "main3 llm w sk lv num_q =
     (if get_all_topics w = [] then (Inr (), w)
      else (case generate_quiz llm w sk lv num_q of
              (quiz_output, w1) \<Rightarrow>
                (case parse_quiz_output quiz_output of
                   Inl e \<Rightarrow> (Inl e, w1)
                 | Inr parsed_questions \<Rightarrow>
                     if parsed_questions = [] then (Inr (), w1)
                     else (Inr (), save_all sk lv parsed_questions w1))))"

section \<open>Auxiliary definitions and the inputs of the examples\<close>

text \<open>The row \<^verbatim>\<open>store_question\<close> inserts, and the candidate an accepted question came from.\<close>

definition qrow_of :: "accepted \<Rightarrow> qrow" where
  "qrow_of q =
     \<lparr>row_question_no = question_no q, row_skill = skill q, row_mode = mode q,
      row_question = question q, option_a = opt_A q, option_b = opt_B q,
      option_c = opt_C q, option_d = opt_D q, correct_answer = correct q\<rparr>"

definition cand_of :: "accepted \<Rightarrow> cand" where
  "cand_of a =
     \<lparr>question = question a, opt_A = opt_A a, opt_B = opt_B a, opt_C = opt_C a,
      opt_D = opt_D a, correct = correct a\<rparr>"

text \<open>The row \<^verbatim>\<open>save_question\<close> of QGtestrun3.py inserts.\<close>

definition qrow3 :: "string \<Rightarrow> string \<Rightarrow> parsed \<Rightarrow> qrow" where
  "qrow3 sk lv q =
     \<lparr>row_question_no = p_question_no q, row_skill = sk, row_mode = lv,
      row_question = p_question q, option_a = p_A q, option_b = p_B q,
      option_c = p_C q, option_d = p_D q, correct_answer = p_answer q\<rparr>"

text \<open>An empty database, a candidate with a given stem, and a pool with a repeated stem.\<close>

definition empty_db :: world where
  "empty_db = \<lparr>connected = True, skill_set = [], quiz_questions = [], resume_history = [],
                quiz_attempts = [], prompts_sent = [], stdin = []\<rparr>"

definition with_stem :: "string \<Rightarrow> cand" where
  "with_stem s = \<lparr>question = s, opt_A = ''a'', opt_B = ''b'', opt_C = ''c'', opt_D = ''d'',
                   correct = ''B''\<rparr>"

definition pool :: "cand list" where
  "pool = [with_stem ''S1'', with_stem ''S2'', with_stem ''S1'', with_stem ''S3'',
           with_stem ''S4'']"

text \<open>A database in which examinee 7 has already been shown the stem S3.\<close>

definition seen_S3 :: world where
  "seen_S3 = empty_db\<lparr>resume_history := [(7, ''S3'')]\<rparr>"

text \<open>A response of the generation service with three well-formed blocks, numbered 7, 7 and 3.\<close>

definition two_questions :: string where
  "two_questions =
     ''Q7. S1\<newline>A) a\<newline>B) b\<newline>C) c\<newline>D) d\<newline>Answer: B\<newline>Q7. S2\<newline>A) a\<newline>B) b\<newline>C) c\<newline>D) d\<newline>Answer: B\<newline>Q3. S4\<newline>A) a\<newline>B) b\<newline>C) c\<newline>D) d\<newline>Answer: B''"

definition llm_two :: "string \<Rightarrow> string" where
  "llm_two prompt = two_questions"



text \<open>
  What it means for a text \<open>g\<close> to be matched by one atom of a pattern: the reading of the
  regular expression syntax against which the matcher \<open>bt\<close> is checked.
\<close>

fun piece_ok :: "atom \<Rightarrow> string \<Rightarrow> bool" where
  "piece_ok (Lit l) g = (g = l)"
| "piece_ok (One p) g = (case g of [c] \<Rightarrow> p c | _ \<Rightarrow> False)"
| "piece_ok (Star p) g = list_all p g"
| "piece_ok (Plus p) g = (g \<noteq> [] \<and> list_all p g)"
| "piece_ok (Lazy p) g = list_all p g"

text \<open>A database with content for one skill, and the records of \<open>two_questions\<close>.\<close>

definition algorithms_db :: world where
  "algorithms_db =
     empty_db\<lparr>skill_set := [(''Algorithms'', ''Binary search operates on sorted arrays.'')]\<rparr>"

definition three_parsed :: "parsed list" where
  "three_parsed =
     [\<lparr>p_question_no = 7, p_question = ''S1'', p_A = ''a'', p_B = ''b'', p_C = ''c'',
       p_D = ''d'', p_answer = ''B''\<rparr>,
      \<lparr>p_question_no = 7, p_question = ''S2'', p_A = ''a'', p_B = ''b'', p_C = ''c'',
       p_D = ''d'', p_answer = ''B''\<rparr>,
      \<lparr>p_question_no = 3, p_question = ''S4'', p_A = ''a'', p_B = ''b'', p_C = ''c'',
       p_D = ''d'', p_answer = ''B''\<rparr>]"

text \<open>
  Three generated texts: one cut off inside its second block, one whose answer line
  repeats the option after the letter, and one whose stem runs over two lines.
\<close>

definition truncated_text :: string where
  "truncated_text =
     ''Q1. S1\<newline>A) a\<newline>B) b\<newline>C) c\<newline>D) d\<newline>Answer: B\<newline>Q2. S2\<newline>A) a\<newline>B) b''"

definition llm_truncated :: "string \<Rightarrow> string" where
  "llm_truncated prompt = truncated_text"

definition answer_with_option_text :: string where
  "answer_with_option_text =
     ''Q1. S1\<newline>A) a\<newline>B) b\<newline>C) c\<newline>D) d\<newline>Answer: B) b''"

definition two_line_stem :: string where
  "two_line_stem =
     ''Q1. Two\<newline>lines) here\<newline>A) a\<newline>B) b\<newline>C) c\<newline>D) d: e\<newline>Answer: A''"

text \<open>
  The greedy selection in closed form: the candidates, in order, whose stem is not in
  the set \<open>H\<close> of recorded stems when their turn comes, each selected stem joining
  \<open>H\<close>; and the stems recorded for an examinee in the history table.
\<close>

fun never_recorded :: "string set \<Rightarrow> cand list \<Rightarrow> cand list" where
  "never_recorded H [] = []"
| "never_recorded H (c # cs) =
     (if question c \<in> H then never_recorded H cs
      else c # never_recorded (insert (question c) H) cs)"

definition recorded :: "world \<Rightarrow> int \<Rightarrow> string set" where
  "recorded w rid = {q. question_used_before w rid q}"

section \<open>The loop of the uniqueness filter\<close>

lemma accept_sel [simp]:
  "question (accept q n sk lv) = question q"
  "correct (accept q n sk lv) = correct q"
  "question_no (accept q n sk lv) = n"
  "skill (accept q n sk lv) = sk"
  "mode (accept q n sk lv) = lv"
  "cand_of (accept q n sk lv) = q"
  by (simp_all add: accept_def cand_of_def)

text \<open>
  What one run of the loop does to its state: it appends the accepted questions \<open>new\<close>
  to \<open>final_qs\<close>, numbers them from \<open>q_no\<close> on, and appends one history row and one
  question row for each; their stems are pairwise different and none was in the
  history of this examinee.
\<close>

lemma unique_loop_effect:
  "unique_loop rid sk lv n parsed f q w = (f', q', w') \<Longrightarrow>
   \<exists>new. f' = f @ new \<and> q' = q + int (length new)
     \<and> map question_no new = [q .. q + int (length new) - 1]
     \<and> w' = w\<lparr>resume_history := resume_history w @ map (\<lambda>a. (rid, question a)) new,
               quiz_questions := quiz_questions w @ map qrow_of new\<rparr>
     \<and> distinct (map question new)
     \<and> list_all (\<lambda>a. \<not> question_used_before w rid (question a)) new"
proof (induction parsed arbitrary: f q w)
  case Nil
  then show ?case by simp
next
  case (Cons c cs)
  show ?case
  proof (cases "int (length f) = n")
    case True
    with Cons.prems show ?thesis by simp
  next
    case stop: False
    show ?thesis
    proof (cases "question_used_before w rid (question c)")
      case True
      with stop Cons.prems have "unique_loop rid sk lv n cs f q w = (f', q', w')" by simp
      from Cons.IH [OF this] show ?thesis .
    next
      case False
      define a where "a = accept c q sk lv"
      define w1 where "w1 = store_question a (store_used_question rid (question c) w)"
      from False stop Cons.prems
      have "unique_loop rid sk lv n cs (f @ [a]) (q + 1) w1 = (f', q', w')"
        by (simp add: a_def w1_def)
      from Cons.IH [OF this] obtain new where
        f': "f' = (f @ [a]) @ new" and q': "q' = q + 1 + int (length new)"
        and nos: "map question_no new = [q + 1 .. q + 1 + int (length new) - 1]"
        and w': "w' = w1\<lparr>resume_history := resume_history w1 @ map (\<lambda>a. (rid, question a)) new,
               quiz_questions := quiz_questions w1 @ map qrow_of new\<rparr>"
        and dist: "distinct (map question new)"
        and fresh: "list_all (\<lambda>a. \<not> question_used_before w1 rid (question a)) new"
        by blast
      have hist1: "resume_history w1 = resume_history w @ [(rid, question c)]"
        by (simp add: w1_def store_question_def store_used_question_def)
      have qa: "question a = question c" by (simp add: a_def)
      have 1: "f' = f @ (a # new)" using f' by simp
      have 2: "q' = q + int (length (a # new))" using q' by simp
      have 3: "map question_no (a # new) = [q .. q + int (length (a # new)) - 1]"
        using nos by (simp add: a_def upto_rec1 [of q])
      have 4: "w' = w\<lparr>resume_history := resume_history w @ map (\<lambda>a. (rid, question a)) (a # new),
               quiz_questions := quiz_questions w @ map qrow_of (a # new)\<rparr>"
        unfolding w' by (simp add: w1_def store_question_def store_used_question_def qrow_of_def qa)
      have 5: "distinct (map question (a # new))"
        using dist fresh by (auto simp: qa list_all_iff question_used_before_def hist1)
      have 6: "list_all (\<lambda>a. \<not> question_used_before w rid (question a)) (a # new)"
        using fresh False by (auto simp: qa list_all_iff question_used_before_def hist1)
      from 1 2 3 4 5 6 show ?thesis by blast
    qed
  qed
qed

lemma unique_loop_history:
  assumes "unique_loop rid sk lv n parsed f q w = (f', q', w')"
  shows "set (resume_history w) \<subseteq> set (resume_history w')"
proof -
  from unique_loop_effect [OF assms] obtain new where
    "w' = w\<lparr>resume_history := resume_history w @ map (\<lambda>a. (rid, question a)) new,
               quiz_questions := quiz_questions w @ map qrow_of new\<rparr>" by blast
  then show ?thesis by auto
qed

text \<open>
  A run that ends without the count reached has looked at every candidate: each stem
  of the pool is in the examinee's history afterwards.
\<close>

lemma unique_loop_exhausted:
  "unique_loop rid sk lv n parsed f q w = (f', q', w') \<Longrightarrow> int (length f') \<noteq> n \<Longrightarrow>
   list_all (\<lambda>c. question_used_before w' rid (question c)) parsed"
proof (induction parsed arbitrary: f q w)
  case Nil
  then show ?case by simp
next
  case (Cons c cs)
  show ?case
  proof (cases "int (length f) = n")
    case True
    with Cons.prems show ?thesis by simp
  next
    case stop: False
    show ?thesis
    proof (cases "question_used_before w rid (question c)")
      case True
      with stop Cons.prems have run: "unique_loop rid sk lv n cs f q w = (f', q', w')" by simp
      from unique_loop_history [OF run] True
      have "question_used_before w' rid (question c)"
        by (auto simp: question_used_before_def)
      with Cons.IH [OF run Cons.prems(2)] show ?thesis by simp
    next
      case False
      define w1 where
        "w1 = store_question (accept c q sk lv) (store_used_question rid (question c) w)"
      from False stop Cons.prems
      have run: "unique_loop rid sk lv n cs (f @ [accept c q sk lv]) (q + 1) w1 = (f', q', w')"
        by (simp add: w1_def)
      have "question_used_before w1 rid (question c)"
        by (simp add: w1_def question_used_before_def store_question_def store_used_question_def)
      with unique_loop_history [OF run]
      have "question_used_before w' rid (question c)"
        by (auto simp: question_used_before_def)
      with Cons.IH [OF run Cons.prems(2)] show ?thesis by simp
    qed
  qed
qed




text \<open>The loop writes to the history and question tables only.\<close>

lemma unique_loop_frame:
  assumes "unique_loop rid sk lv n parsed f q w = (f', q', w')"
  shows "prompts_sent w' = prompts_sent w \<and> quiz_attempts w' = quiz_attempts w
       \<and> stdin w' = stdin w \<and> skill_set w' = skill_set w \<and> connected w' = connected w"
proof -
  from unique_loop_effect [OF assms] obtain new where
    "w' = w\<lparr>resume_history := resume_history w @ map (\<lambda>a. (rid, question a)) new,
               quiz_questions := quiz_questions w @ map qrow_of new\<rparr>" by blast
  then show ?thesis by simp
qed

text \<open>A normal return of \<^verbatim>\<open>generate_unique_questions\<close> comes from a run of its loop.\<close>

lemma generate_unique_questions_cases:
  assumes "generate_unique_questions llm w rid sk lv n = (Inr out, w')"
  obtains parsed final_qs q_no where
    "parse_questions (llm (build_prompt4 sk lv (n * 2) (get_content_for_skill w sk))) = Inr parsed"
    "unique_loop rid sk lv n parsed [] 1
       (w\<lparr>prompts_sent := prompts_sent w @ [build_prompt4 sk lv (n * 2) (get_content_for_skill w sk)]\<rparr>)
     = (final_qs, q_no, w')"
    "out = (if int (length final_qs) < n
            then Message ''Not enough unique questions found. Try again.''
            else Questions final_qs)"
  using assms
  by (auto simp: generate_unique_questions_def Let_def split: sum.splits prod.splits if_splits)

text \<open>The scoring loop, when standard input holds an answer for every question.\<close>

lemma quiz_loop_tally:
  "length qs \<le> length (stdin w) \<Longrightarrow>
   quiz_loop qs tally w =
     (Inr (tally + int (length (filter (\<lambda>(q, line). upper (strip line) = code_points (correct q))
                                 (zip qs (stdin w))))),
      w\<lparr>stdin := drop (length qs) (stdin w)\<rparr>)"
proof (induction qs arbitrary: tally w)
  case Nil
  then show ?case by simp
next
  case (Cons q qs)
  then obtain line rest where inp: "stdin w = line # rest" by (cases "stdin w") auto
  with Cons.prems have "length qs \<le> length (stdin (w\<lparr>stdin := rest\<rparr>))" by simp
  from Cons.IH [OF this] inp show ?case by simp
qed

text \<open>
  The loop selects greedily: what it accepts is the first \<open>n\<close> (less what was accepted
  before) of the candidates never recorded.
\<close>

lemma mem_recorded: "q \<in> recorded w rid \<longleftrightarrow> question_used_before w rid q"
  by (simp add: recorded_def)

lemma recorded_after_accept:
  "recorded (store_question a (store_used_question rid q w)) rid = insert q (recorded w rid)"
  by (auto simp: recorded_def question_used_before_def store_question_def store_used_question_def)

lemma unique_loop_greedy:
  "unique_loop rid sk lv n parsed f q w = (f', q', w') \<Longrightarrow> int (length f) \<le> n \<Longrightarrow>
   map cand_of f' =
     map cand_of f @ take (nat n - length f) (never_recorded (recorded w rid) parsed)"
proof (induction parsed arbitrary: f q w)
  case Nil
  then show ?case by simp
next
  case (Cons c cs)
  show ?case
  proof (cases "int (length f) = n")
    case True
    with Cons.prems show ?thesis by simp
  next
    case stop: False
    show ?thesis
    proof (cases "question_used_before w rid (question c)")
      case True
      with stop Cons.prems have "unique_loop rid sk lv n cs f q w = (f', q', w')" by simp
      from Cons.IH [OF this Cons.prems(2)] True show ?thesis by (simp add: mem_recorded)
    next
      case False
      define a where "a = accept c q sk lv"
      define w1 where "w1 = store_question a (store_used_question rid (question c) w)"
      from False stop Cons.prems
      have run: "unique_loop rid sk lv n cs (f @ [a]) (q + 1) w1 = (f', q', w')"
        by (simp add: a_def w1_def)
      from stop Cons.prems(2) have room: "int (length (f @ [a])) \<le> n" by simp
      have H1: "recorded w1 rid = insert (question c) (recorded w rid)"
        by (simp add: w1_def recorded_after_accept)
      from stop Cons.prems(2) have "nat n - length f = Suc (nat n - length (f @ [a]))" by simp
      with Cons.IH [OF run room] False show ?thesis
        by (simp add: H1 a_def mem_recorded)
    qed
  qed
qed

section \<open>The uniqueness filter never repeats a stem\<close>

text \<open>
  Claim C2. For every examinee and every run of the uniqueness filter: the accepted
  questions have pairwise different stems, none of which was in the examinee's history
  before the run (a candidate whose stem is recorded is never accepted, also when the
  stem was recorded by an earlier acceptance of the same pool); each accepted stem is
  in the history after the run, the run appending exactly the pairs (examinee, stem)
  of the accepted questions; a run that ends without the requested count reached has
  accepted every candidate whose stem was not recorded; for a count \<open>n \<ge> 0\<close> the
  accepted candidates are exactly the first \<open>n\<close> of the candidates whose stem had never
  been recorded when their turn came; and a later run for the same examinee, on any
  history that still holds these rows, accepts none of these stems.
\<close>

theorem uniqueness_filter_accepts_only_new_stems:
  assumes run: "unique_loop rid sk lv n parsed [] 1 w = (final_qs, q_no, w')"
  shows "distinct (map question final_qs)
       \<and> list_all (\<lambda>a. \<not> question_used_before w rid (question a)) final_qs
       \<and> list_all (\<lambda>a. question_used_before w' rid (question a)) final_qs
       \<and> resume_history w' = resume_history w @ map (\<lambda>a. (rid, question a)) final_qs
       \<and> (int (length final_qs) \<noteq> n \<longrightarrow>
            list_all (\<lambda>c. question_used_before w rid (question c)
                           \<or> question c \<in> set (map question final_qs)) parsed)
       \<and> (0 \<le> n \<longrightarrow>
            map cand_of final_qs = take (nat n) (never_recorded (recorded w rid) parsed))
       \<and> (\<forall>n2 parsed2 w2 final2 q2 w2'.
             set (resume_history w') \<subseteq> set (resume_history w2) \<longrightarrow>
             unique_loop rid sk lv n2 parsed2 [] 1 w2 = (final2, q2, w2') \<longrightarrow>
             set (map question final2) \<inter> set (map question final_qs) = {})"
proof -
  from unique_loop_effect [OF run] have
    d: "distinct (map question final_qs)"
    and fresh: "list_all (\<lambda>a. \<not> question_used_before w rid (question a)) final_qs"
    and w': "w' = w\<lparr>resume_history := resume_history w @ map (\<lambda>a. (rid, question a)) final_qs,
               quiz_questions := quiz_questions w @ map qrow_of final_qs\<rparr>"
    by auto
  from w' have hist: "resume_history w' = resume_history w @ map (\<lambda>a. (rid, question a)) final_qs"
    by simp
  have rec: "list_all (\<lambda>a. question_used_before w' rid (question a)) final_qs"
    by (auto simp: list_all_iff question_used_before_def hist)
  have ex: "list_all (\<lambda>c. question_used_before w rid (question c)
                           \<or> question c \<in> set (map question final_qs)) parsed"
    if "int (length final_qs) \<noteq> n"
    using unique_loop_exhausted [OF run that]
    by (auto simp: list_all_iff question_used_before_def hist)
  have later: "set (map question final2) \<inter> set (map question final_qs) = {}"
    if sub: "set (resume_history w') \<subseteq> set (resume_history w2)"
      and run2: "unique_loop rid sk lv n2 parsed2 [] 1 w2 = (final2, q2, w2')"
    for n2 parsed2 w2 final2 q2 w2'
  proof -
    from unique_loop_effect [OF run2]
    have "list_all (\<lambda>a. \<not> question_used_before w2 rid (question a)) final2" by auto
    then have new2: "(rid, question b) \<notin> set (resume_history w2)" if "b \<in> set final2" for b
      using that by (simp add: list_all_iff question_used_before_def)
    have old: "(rid, question a) \<in> set (resume_history w2)" if "a \<in> set final_qs" for a
      using that rec sub by (auto simp: list_all_iff question_used_before_def)
    show ?thesis
    proof (rule ccontr)
      assume "set (map question final2) \<inter> set (map question final_qs) \<noteq> {}"
      then obtain b a where "b \<in> set final2" "a \<in> set final_qs" "question b = question a"
        by auto
      with new2 [of b] old [of a] show False by simp
    qed
  qed
  have greedy: "map cand_of final_qs = take (nat n) (never_recorded (recorded w rid) parsed)"
    if "0 \<le> n"
    using unique_loop_greedy [OF run] that by simp
  from d fresh rec hist ex greedy later show ?thesis by blast
qed

text \<open>
  The pool S1, S2, S1, S3, S4 for examinee 7, who has seen S3, with five questions
  requested: S1, S2 and S4 are accepted, the second S1 and S3 are not.
\<close>

theorem uniqueness_filter_accepts_only_new_stems_witness:
  "unique_loop 7 ''Algorithms'' ''Beginner'' 5 pool [] 1 seen_S3 =
     ([accept (with_stem ''S1'') 1 ''Algorithms'' ''Beginner'',
       accept (with_stem ''S2'') 2 ''Algorithms'' ''Beginner'',
       accept (with_stem ''S4'') 3 ''Algorithms'' ''Beginner''], 4,
      seen_S3\<lparr>resume_history := [(7, ''S3''), (7, ''S1''), (7, ''S2''), (7, ''S4'')],
              quiz_questions :=
                [qrow_of (accept (with_stem ''S1'') 1 ''Algorithms'' ''Beginner''),
                 qrow_of (accept (with_stem ''S2'') 2 ''Algorithms'' ''Beginner''),
                 qrow_of (accept (with_stem ''S4'') 3 ''Algorithms'' ''Beginner'')]\<rparr>)
   \<and> distinct [''S1'', ''S2'', ''S4'']
   \<and> list_all (\<lambda>c. question_used_before seen_S3 7 (question c)
                  \<or> question c \<in> set [''S1'', ''S2'', ''S4'']) pool
   \<and> take 5 (never_recorded (recorded seen_S3 7) pool)
       = [with_stem ''S1'', with_stem ''S2'', with_stem ''S4'']"
proof -
  have run: "unique_loop 7 ''Algorithms'' ''Beginner'' 5 pool [] 1 seen_S3 =
     ([accept (with_stem ''S1'') 1 ''Algorithms'' ''Beginner'',
       accept (with_stem ''S2'') 2 ''Algorithms'' ''Beginner'',
       accept (with_stem ''S4'') 3 ''Algorithms'' ''Beginner''], 4,
      seen_S3\<lparr>resume_history := [(7, ''S3''), (7, ''S1''), (7, ''S2''), (7, ''S4'')],
              quiz_questions :=
                [qrow_of (accept (with_stem ''S1'') 1 ''Algorithms'' ''Beginner''),
                 qrow_of (accept (with_stem ''S2'') 2 ''Algorithms'' ''Beginner''),
                 qrow_of (accept (with_stem ''S4'') 3 ''Algorithms'' ''Beginner'')]\<rparr>)"
    by (simp add: pool_def with_stem_def seen_S3_def empty_db_def question_used_before_def
        store_question_def store_used_question_def qrow_of_def accept_def)
  from uniqueness_filter_accepts_only_new_stems [OF run] run show ?thesis
    by (simp add: with_stem_def)
qed

section \<open>Oversampling and the stop at the requested count\<close>




lemma recorded_prompts_sent [simp]: "recorded (w\<lparr>prompts_sent := ps\<rparr>) rid = recorded w rid"
  by (simp add: recorded_def question_used_before_def)





section \<open>Display numbers\<close>

text \<open>
  Claim C5. Whenever \<^verbatim>\<open>generate_unique_questions\<close> returns (with the questions or with
  the message), the question rows it has inserted carry the numbers 1, 2, ..., K in
  insertion order, K the number of accepted questions; and when it returns the
  questions, these are the K accepted ones, numbered 1..K in order. The generated text
  is arbitrary (\<open>llm\<close> is any function), and a parsed candidate carries no number: the
  \<^verbatim>\<open>Q<digits>\<close> markers are consumed by the split.
\<close>

theorem display_numbers_are_one_to_K:
  assumes "generate_unique_questions llm w rid sk lv n = (Inr out, w')"
  shows "map row_question_no (drop (length (quiz_questions w)) (quiz_questions w'))
           = [1 .. int (length (quiz_questions w') - length (quiz_questions w))]
       \<and> (case out of
             Questions qs \<Rightarrow>
               map question_no qs = [1 .. int (length qs)]
               \<and> drop (length (quiz_questions w)) (quiz_questions w') = map qrow_of qs
           | Message m \<Rightarrow> True)"
proof -
  from assms obtain parsed final_qs q_no where
    run: "unique_loop rid sk lv n parsed [] 1
       (w\<lparr>prompts_sent := prompts_sent w @ [build_prompt4 sk lv (n * 2) (get_content_for_skill w sk)]\<rparr>)
     = (final_qs, q_no, w')"
    and out: "out = (if int (length final_qs) < n
            then Message ''Not enough unique questions found. Try again.''
            else Questions final_qs)"
    by (rule generate_unique_questions_cases)
  from unique_loop_effect [OF run] have
    nos: "map question_no final_qs = [1 .. int (length final_qs)]"
    and rows: "quiz_questions w' = quiz_questions w @ map qrow_of final_qs"
    by auto
  have "map row_question_no (map qrow_of final_qs) = map question_no final_qs"
    by (simp add: qrow_of_def)
  with nos rows out show ?thesis by simp
qed

text \<open>The blocks marked Q7, Q7, Q3 in the generated text: the accepted two are numbered 1, 2.\<close>

theorem display_numbers_are_one_to_K_witness:
  "generate_unique_questions llm_two empty_db 7 ''Algorithms'' ''Beginner'' 2 =
     (Inr (Questions [accept (with_stem ''S1'') 1 ''Algorithms'' ''Beginner'',
                      accept (with_stem ''S2'') 2 ''Algorithms'' ''Beginner'']),
      empty_db\<lparr>prompts_sent := [build_prompt4 ''Algorithms'' ''Beginner'' 4 []],
               resume_history := [(7, ''S1''), (7, ''S2'')],
               quiz_questions :=
                 [qrow_of (accept (with_stem ''S1'') 1 ''Algorithms'' ''Beginner''),
                  qrow_of (accept (with_stem ''S2'') 2 ''Algorithms'' ''Beginner'')]\<rparr>)
   \<and> map question_no [accept (with_stem ''S1'') 1 ''Algorithms'' ''Beginner'',
                       accept (with_stem ''S2'') 2 ''Algorithms'' ''Beginner''] = [1, 2]"
proof -
  have parse: "parse_questions two_questions = Inr [with_stem ''S1'', with_stem ''S2'', with_stem ''S4'']"
    by code_simp
  have run: "generate_unique_questions llm_two empty_db 7 ''Algorithms'' ''Beginner'' 2 =
     (Inr (Questions [accept (with_stem ''S1'') 1 ''Algorithms'' ''Beginner'',
                      accept (with_stem ''S2'') 2 ''Algorithms'' ''Beginner'']),
      empty_db\<lparr>prompts_sent := [build_prompt4 ''Algorithms'' ''Beginner'' 4 []],
               resume_history := [(7, ''S1''), (7, ''S2'')],
               quiz_questions :=
                 [qrow_of (accept (with_stem ''S1'') 1 ''Algorithms'' ''Beginner''),
                  qrow_of (accept (with_stem ''S2'') 2 ''Algorithms'' ''Beginner'')]\<rparr>)"
    by (simp add: generate_unique_questions_def llm_two_def parse get_content_for_skill_def
        empty_db_def with_stem_def question_used_before_def store_question_def
        store_used_question_def qrow_of_def accept_def)
  from display_numbers_are_one_to_K [OF run] run show ?thesis
    by simp
qed

section \<open>Too few unique questions\<close>

text \<open>
  Claim C3. When the generated text parses, and the loop over the parsed pool ends
  with fewer than \<open>n\<close> accepted questions, \<^verbatim>\<open>generate_unique_questions\<close> returns the
  message "Not enough unique questions found. Try again."; \<^verbatim>\<open>main\<close> then stops with a
  TypeError at the first step of its quiz loop, before any answer is read and before
  \<^verbatim>\<open>store_score\<close>: no attempt row is created and standard input is untouched, while
  the history rows and question rows of the questions accepted so far stay in the
  stores.
\<close>

theorem insufficient_unique_questions:
  assumes parse: "parse_questions (llm (build_prompt4 sk lv (n * 2) (get_content_for_skill w sk)))
                    = Inr parsed"
    and run: "unique_loop rid sk lv n parsed [] 1
                (w\<lparr>prompts_sent := prompts_sent w @
                     [build_prompt4 sk lv (n * 2) (get_content_for_skill w sk)]\<rparr>)
              = (final_qs, q_no, w')"
    and few: "int (length final_qs) < n"
  shows "generate_unique_questions llm w rid sk lv n
           = (Inr (Message ''Not enough unique questions found. Try again.''), w')
       \<and> main4 llm w rid sk lv n = (Inl TypeError, w')
       \<and> quiz_attempts w' = quiz_attempts w
       \<and> stdin w' = stdin w
       \<and> resume_history w' = resume_history w @ map (\<lambda>a. (rid, question a)) final_qs
       \<and> quiz_questions w' = quiz_questions w @ map qrow_of final_qs"
proof -
  have gen: "generate_unique_questions llm w rid sk lv n
           = (Inr (Message ''Not enough unique questions found. Try again.''), w')"
    using parse run few by (simp add: generate_unique_questions_def)
  then have main: "main4 llm w rid sk lv n = (Inl TypeError, w')"
    by (simp add: main4_def)
  from unique_loop_frame [OF run] have frame: "quiz_attempts w' = quiz_attempts w" "stdin w' = stdin w"
    by simp_all
  from unique_loop_effect [OF run] have
    "resume_history w' = resume_history w @ map (\<lambda>a. (rid, question a)) final_qs"
    "quiz_questions w' = quiz_questions w @ map qrow_of final_qs"
    by auto
  with gen main frame show ?thesis by simp
qed

text \<open>
  Four questions requested by examinee 7, who has seen S3, from a text with the stems
  S1, S2, S4: three rows are kept in each table, no attempt is stored, and the four
  answers waiting on standard input are not read.
\<close>

theorem insufficient_unique_questions_witness:
  "main4 llm_two (seen_S3\<lparr>stdin := [''b'', ''b'', ''b'', ''b'']\<rparr>) 7 ''Algorithms'' ''Beginner'' 4
     = (Inl TypeError,
        seen_S3\<lparr>stdin := [''b'', ''b'', ''b'', ''b''],
                prompts_sent := [build_prompt4 ''Algorithms'' ''Beginner'' 8 []],
                resume_history := [(7, ''S3''), (7, ''S1''), (7, ''S2''), (7, ''S4'')],
                quiz_questions :=
                  [qrow_of (accept (with_stem ''S1'') 1 ''Algorithms'' ''Beginner''),
                   qrow_of (accept (with_stem ''S2'') 2 ''Algorithms'' ''Beginner''),
                   qrow_of (accept (with_stem ''S4'') 3 ''Algorithms'' ''Beginner'')]\<rparr>)
   \<and> quiz_attempts seen_S3 = []"
proof -
  let ?w = "seen_S3\<lparr>stdin := [''b'', ''b'', ''b'', ''b'']\<rparr>"
  let ?f = "[accept (with_stem ''S1'') 1 ''Algorithms'' ''Beginner'',
             accept (with_stem ''S2'') 2 ''Algorithms'' ''Beginner'',
             accept (with_stem ''S4'') 3 ''Algorithms'' ''Beginner'']"
  let ?w' = "seen_S3\<lparr>stdin := [''b'', ''b'', ''b'', ''b''],
                prompts_sent := [build_prompt4 ''Algorithms'' ''Beginner'' 8 []],
                resume_history := [(7, ''S3''), (7, ''S1''), (7, ''S2''), (7, ''S4'')],
                quiz_questions :=
                  [qrow_of (accept (with_stem ''S1'') 1 ''Algorithms'' ''Beginner''),
                   qrow_of (accept (with_stem ''S2'') 2 ''Algorithms'' ''Beginner''),
                   qrow_of (accept (with_stem ''S4'') 3 ''Algorithms'' ''Beginner'')]\<rparr>"
  have content: "get_content_for_skill ?w ''Algorithms'' = []"
    by (simp add: get_content_for_skill_def seen_S3_def empty_db_def)
  have "parse_questions two_questions = Inr [with_stem ''S1'', with_stem ''S2'', with_stem ''S4'']"
    by code_simp
  then have parse: "parse_questions (llm_two (build_prompt4 ''Algorithms'' ''Beginner'' (4 * 2)
        (get_content_for_skill ?w ''Algorithms''))) = Inr [with_stem ''S1'', with_stem ''S2'', with_stem ''S4'']"
    by (simp add: llm_two_def)
  have run: "unique_loop 7 ''Algorithms'' ''Beginner'' 4
                [with_stem ''S1'', with_stem ''S2'', with_stem ''S4''] [] 1
                (?w\<lparr>prompts_sent := prompts_sent ?w @
                     [build_prompt4 ''Algorithms'' ''Beginner'' (4 * 2) (get_content_for_skill ?w ''Algorithms'')]\<rparr>)
              = (?f, 4, ?w')"
    by (simp add: get_content_for_skill_def with_stem_def seen_S3_def empty_db_def
        question_used_before_def store_question_def store_used_question_def qrow_of_def
        accept_def)
  have few: "int (length ?f) < 4" by simp
  from insufficient_unique_questions [where llm = llm_two, OF parse run few]
  show ?thesis by (simp add: seen_S3_def empty_db_def)
qed

section \<open>Scoring\<close>

text \<open>
  Upper-casing gives at least one code point for each character, so an upper-cased
  input is a single letter A to D only when the input is that letter, in upper or in
  lower case.
\<close>

lemma upper_char_nonempty: "upper_char c \<noteq> []"
  by (simp add: upper_char_def Let_def)

lemma upper_single:
  "upper s = [n] \<longleftrightarrow> (\<exists>c. s = [c] \<and> upper_char c = [n])"
proof (cases s)
  case Nil
  then show ?thesis by (simp add: upper_def)
next
  case (Cons c s')
  show ?thesis
  proof (cases s')
    case Nil
    with Cons show ?thesis by (simp add: upper_def)
  next
    case (Cons d s'')
    have "1 \<le> length (upper_char c)" "1 \<le> length (upper_char d)"
      using upper_char_nonempty [of c] upper_char_nonempty [of d]
      by (simp_all add: Suc_le_eq)
    then have len: "2 \<le> length (upper s)"
      using \<open>s = c # s'\<close> Cons by (simp add: upper_def)
    have "upper s \<noteq> [n]"
    proof
      assume "upper s = [n]"
      then have "length (upper s) = 1" by simp
      with len show False by simp
    qed
    with \<open>s = c # s'\<close> Cons show ?thesis by simp
  qed
qed

lemma of_char_is: "(of_char c :: nat) = of_char d \<longleftrightarrow> c = d"
  by simp

lemma upper_char_letter:
  assumes "(U, l) \<in> set (zip ''ABCD'' ''abcd'')"
  shows "upper_char c = [of_char U] \<longleftrightarrow> c = U \<or> c = l"
proof -
  have A: "(of_char c :: nat) = 65 \<longleftrightarrow> c = CHR ''A''" "(of_char c :: nat) = 97 \<longleftrightarrow> c = CHR ''a''"
    and B: "(of_char c :: nat) = 66 \<longleftrightarrow> c = CHR ''B''" "(of_char c :: nat) = 98 \<longleftrightarrow> c = CHR ''b''"
    and C: "(of_char c :: nat) = 67 \<longleftrightarrow> c = CHR ''C''" "(of_char c :: nat) = 99 \<longleftrightarrow> c = CHR ''c''"
    and D: "(of_char c :: nat) = 68 \<longleftrightarrow> c = CHR ''D''" "(of_char c :: nat) = 100 \<longleftrightarrow> c = CHR ''d''"
    using of_char_is [of c "CHR ''A''"] of_char_is [of c "CHR ''a''"]
      of_char_is [of c "CHR ''B''"] of_char_is [of c "CHR ''b''"]
      of_char_is [of c "CHR ''C''"] of_char_is [of c "CHR ''c''"]
      of_char_is [of c "CHR ''D''"] of_char_is [of c "CHR ''d''"]
    by simp_all
  from assms consider "U = CHR ''A''" "l = CHR ''a''" | "U = CHR ''B''" "l = CHR ''b''"
    | "U = CHR ''C''" "l = CHR ''c''" | "U = CHR ''D''" "l = CHR ''d''"
    by auto
  then show ?thesis
  proof cases
    case 1
    have "upper_char c = [65] \<longleftrightarrow> of_char c = (65::nat) \<or> of_char c = (97::nat)"
      by (simp add: upper_char_def Let_def) arith
    with 1 A show ?thesis by simp
  next
    case 2
    have "upper_char c = [66] \<longleftrightarrow> of_char c = (66::nat) \<or> of_char c = (98::nat)"
      by (simp add: upper_char_def Let_def) arith
    with 2 B show ?thesis by simp
  next
    case 3
    have "upper_char c = [67] \<longleftrightarrow> of_char c = (67::nat) \<or> of_char c = (99::nat)"
      by (simp add: upper_char_def Let_def) arith
    with 3 C show ?thesis by simp
  next
    case 4
    have "upper_char c = [68] \<longleftrightarrow> of_char c = (68::nat) \<or> of_char c = (100::nat)"
      by (simp add: upper_char_def Let_def) arith
    with 4 D show ?thesis by simp
  qed
qed

lemma upper_is_letter:
  assumes "(U, l) \<in> set (zip ''ABCD'' ''abcd'')"
  shows "upper s = code_points [U] \<longleftrightarrow> s = [U] \<or> s = [l]"
  using upper_char_letter [OF assms]
  by (auto simp: code_points_def upper_single)

text \<open>
  Claim C9. The scoring loop strips and upper-cases each line the examinee enters and
  compares it with the stored answer. With an answer available for every question, the
  tally grows by exactly one for each question whose normalised input equals the stored
  \<^verbatim>\<open>correct\<close> value, and by nothing for the others. For a question whose stored
  answer is one of the letters A, B, C, D, the comparison does not depend on the case of
  the input: the question is counted exactly when the stripped input is that letter, in
  upper or in lower case. In particular the input "b" counts for a stored "B". And
  \<^verbatim>\<open>main\<close> stores the tally as \<^verbatim>\<open>correct_answers\<close> of the attempt. (Only the input
  is normalised: the stored text is compared as it is.)
\<close>

theorem answers_compared_in_upper_case:
  "(length qs \<le> length (stdin w) \<longrightarrow>
      quiz_loop qs tally w =
        (Inr (tally + int (length (filter (\<lambda>(q, line). upper (strip line) = code_points (correct q))
                                    (zip qs (stdin w))))),
         w\<lparr>stdin := drop (length qs) (stdin w)\<rparr>))
   \<and> ((U, l) \<in> set (zip ''ABCD'' ''abcd'') \<and> correct q = [U] \<longrightarrow>
        quiz_loop [q] tally (w\<lparr>stdin := line # rest\<rparr>) =
          (Inr (if strip line = [U] \<or> strip line = [l] then tally + 1 else tally),
           w\<lparr>stdin := rest\<rparr>))
   \<and> (correct q = ''B'' \<longrightarrow>
        quiz_loop [q] tally (w\<lparr>stdin := ''b'' # rest\<rparr>) = (Inr (tally + 1), w\<lparr>stdin := rest\<rparr>))
   \<and> (generate_unique_questions llm w rid sk lv n = (Inr (Questions qs), w1)
        \<and> length qs \<le> length (stdin w1) \<longrightarrow>
        main4 llm w rid sk lv n =
          (Inr (),
           store_score rid sk lv n
             (int (length (filter (\<lambda>(q, line). upper (strip line) = code_points (correct q))
                             (zip qs (stdin w1)))))
             (w1\<lparr>stdin := drop (length qs) (stdin w1)\<rparr>)))"
proof (intro conjI impI)
  assume "length qs \<le> length (stdin w)"
  then show "quiz_loop qs tally w =
        (Inr (tally + int (length (filter (\<lambda>(q, line). upper (strip line) = code_points (correct q))
                                    (zip qs (stdin w))))),
         w\<lparr>stdin := drop (length qs) (stdin w)\<rparr>)"
    by (rule quiz_loop_tally)
next
  assume "(U, l) \<in> set (zip ''ABCD'' ''abcd'') \<and> correct q = [U]"
  then have letter: "(U, l) \<in> set (zip ''ABCD'' ''abcd'')" and stored: "correct q = [U]"
    by simp_all
  from upper_is_letter [OF letter, of "strip line"] stored
  show "quiz_loop [q] tally (w\<lparr>stdin := line # rest\<rparr>) =
          (Inr (if strip line = [U] \<or> strip line = [l] then tally + 1 else tally),
           w\<lparr>stdin := rest\<rparr>)"
    by simp
next
  assume stored: "correct q = ''B''"
  have "(CHR ''B'', CHR ''b'') \<in> set (zip ''ABCD'' ''abcd'')" by simp
  from upper_is_letter [OF this, of "strip ''b''"] stored
  show "quiz_loop [q] tally (w\<lparr>stdin := ''b'' # rest\<rparr>) = (Inr (tally + 1), w\<lparr>stdin := rest\<rparr>)"
    by (simp add: strip_def isspace_def whitespace_def)
next
  assume "generate_unique_questions llm w rid sk lv n = (Inr (Questions qs), w1)
        \<and> length qs \<le> length (stdin w1)"
  then show "main4 llm w rid sk lv n =
          (Inr (),
           store_score rid sk lv n
             (int (length (filter (\<lambda>(q, line). upper (strip line) = code_points (correct q))
                             (zip qs (stdin w1)))))
             (w1\<lparr>stdin := drop (length qs) (stdin w1)\<rparr>))"
    by (simp add: main4_def quiz_loop_tally)
qed

text \<open>
  Two accepted questions with the answer B, and the inputs "b" and " c ": one correct,
  and \<^verbatim>\<open>main\<close> stores the attempt 1 of 2. Against the stored B, the inputs "b" and
  " B " count and "bb" does not.
\<close>

theorem answers_compared_in_upper_case_witness:
  "quiz_loop [accept (with_stem ''S1'') 1 ''Algorithms'' ''Beginner'',
              accept (with_stem ''S2'') 2 ''Algorithms'' ''Beginner''] 0
     (empty_db\<lparr>stdin := [''b'', '' c '', ''later'']\<rparr>)
     = (Inr 1, empty_db\<lparr>stdin := [''later'']\<rparr>)
   \<and> correct (accept (with_stem ''S1'') 1 ''Algorithms'' ''Beginner'') = ''B''
   \<and> quiz_loop [accept (with_stem ''S1'') 1 ''Algorithms'' ''Beginner''] 0
        (empty_db\<lparr>stdin := [''b'', ''later'']\<rparr>)
       = (Inr 1, empty_db\<lparr>stdin := [''later'']\<rparr>)
   \<and> quiz_loop [accept (with_stem ''S1'') 1 ''Algorithms'' ''Beginner''] 0
        (empty_db\<lparr>stdin := ['' B '', ''later'']\<rparr>)
       = (Inr 1, empty_db\<lparr>stdin := [''later'']\<rparr>)
   \<and> quiz_loop [accept (with_stem ''S1'') 1 ''Algorithms'' ''Beginner''] 0
        (empty_db\<lparr>stdin := [''bb'', ''later'']\<rparr>)
       = (Inr 0, empty_db\<lparr>stdin := [''later'']\<rparr>)
   \<and> main4 llm_two (empty_db\<lparr>stdin := [''b'', '' c '', ''later'']\<rparr>) 7 ''Algorithms'' ''Beginner'' 2
       = (Inr (),
          empty_db\<lparr>stdin := [''later''],
                   prompts_sent := [build_prompt4 ''Algorithms'' ''Beginner'' 4 []],
                   resume_history := [(7, ''S1''), (7, ''S2'')],
                   quiz_questions :=
                     [qrow_of (accept (with_stem ''S1'') 1 ''Algorithms'' ''Beginner''),
                      qrow_of (accept (with_stem ''S2'') 2 ''Algorithms'' ''Beginner'')],
                   quiz_attempts :=
                     [\<lparr>row_resume_id = 7, attempt_skill = ''Algorithms'',
                       attempt_mode = ''Beginner'', total_questions = 2,
                       correct_answers = 1\<rparr>]\<rparr>)"
proof -
  let ?q = "accept (with_stem ''S1'') 1 ''Algorithms'' ''Beginner''"
  let ?qs = "[accept (with_stem ''S1'') 1 ''Algorithms'' ''Beginner'',
              accept (with_stem ''S2'') 2 ''Algorithms'' ''Beginner'']"
  let ?w = "empty_db\<lparr>stdin := [''b'', '' c '', ''later'']\<rparr>"
  let ?w1 = "empty_db\<lparr>stdin := [''b'', '' c '', ''later''],
                   prompts_sent := [build_prompt4 ''Algorithms'' ''Beginner'' 4 []],
                   resume_history := [(7, ''S1''), (7, ''S2'')],
                   quiz_questions :=
                     [qrow_of (accept (with_stem ''S1'') 1 ''Algorithms'' ''Beginner''),
                      qrow_of (accept (with_stem ''S2'') 2 ''Algorithms'' ''Beginner'')]\<rparr>"
  have norm: "upper (strip ''b'') = [66]" "upper (strip '' c '') = [67]"
    "code_points ''B'' = [66]"
    by (simp_all add: upper_def upper_char_def code_points_def strip_def isspace_def
        whitespace_def)
  have stripped: "strip '' B '' = ''B''" "strip ''bb'' = ''bb''"
    by (simp_all add: strip_def isspace_def whitespace_def)
  have enough: "length ?qs \<le> length (stdin ?w)" by simp
  have b: "correct ?q = ''B''" by (simp add: with_stem_def)
  have letter: "(CHR ''B'', CHR ''b'') \<in> set (zip ''ABCD'' ''abcd'') \<and> correct ?q = [CHR ''B'']"
    by (simp add: with_stem_def)
  have parse: "parse_questions two_questions
                 = Inr [with_stem ''S1'', with_stem ''S2'', with_stem ''S4'']"
    by code_simp
  have gen: "generate_unique_questions llm_two ?w 7 ''Algorithms'' ''Beginner'' 2
               = (Inr (Questions ?qs), ?w1)"
    by (simp add: generate_unique_questions_def llm_two_def parse get_content_for_skill_def
        empty_db_def with_stem_def question_used_before_def store_question_def
        store_used_question_def qrow_of_def accept_def)
  have enough1: "length ?qs \<le> length (stdin ?w1)" by simp
  note inst = answers_compared_in_upper_case [where qs = ?qs and w = ?w and tally = 0
      and q = ?q and rest = "[''later'']" and llm = llm_two and rid = 7
      and sk = "''Algorithms''" and lv = "''Beginner''" and n = 2 and ?w1.0 = ?w1
      and U = "CHR ''B''" and l = "CHR ''b''"]
  from inst [THEN conjunct1, rule_format, OF enough]
  have 1: "quiz_loop ?qs 0 ?w = (Inr 1, empty_db\<lparr>stdin := [''later'']\<rparr>)"
    by (simp add: norm with_stem_def accept_def)
  from inst [THEN conjunct2, THEN conjunct2, THEN conjunct1, rule_format, OF b]
  have 2: "quiz_loop [?q] 0 (empty_db\<lparr>stdin := [''b'', ''later'']\<rparr>)
       = (Inr 1, empty_db\<lparr>stdin := [''later'']\<rparr>)"
    by (simp add: empty_db_def)
  from inst [where line = "'' B ''", THEN conjunct2, THEN conjunct1, rule_format, OF letter]
  have 3: "quiz_loop [?q] 0 (empty_db\<lparr>stdin := ['' B '', ''later'']\<rparr>)
       = (Inr 1, empty_db\<lparr>stdin := [''later'']\<rparr>)"
    by (simp add: empty_db_def stripped)
  from inst [where line = "''bb''", THEN conjunct2, THEN conjunct1, rule_format, OF letter]
  have 4: "quiz_loop [?q] 0 (empty_db\<lparr>stdin := [''bb'', ''later'']\<rparr>)
       = (Inr 0, empty_db\<lparr>stdin := [''later'']\<rparr>)"
    by (simp add: empty_db_def stripped)
  from inst [THEN conjunct2, THEN conjunct2, THEN conjunct2, rule_format, OF conjI [OF gen enough1]]
  have 5: "main4 llm_two ?w 7 ''Algorithms'' ''Beginner'' 2
       = (Inr (),
          empty_db\<lparr>stdin := [''later''],
                   prompts_sent := [build_prompt4 ''Algorithms'' ''Beginner'' 4 []],
                   resume_history := [(7, ''S1''), (7, ''S2'')],
                   quiz_questions :=
                     [qrow_of (accept (with_stem ''S1'') 1 ''Algorithms'' ''Beginner''),
                      qrow_of (accept (with_stem ''S2'') 2 ''Algorithms'' ''Beginner'')],
                   quiz_attempts :=
                     [\<lparr>row_resume_id = 7, attempt_skill = ''Algorithms'',
                       attempt_mode = ''Beginner'', total_questions = 2,
                       correct_answers = 1\<rparr>]\<rparr>)"
    by (simp add: norm with_stem_def accept_def store_score_def empty_db_def)
  from 1 b 2 3 4 5 show ?thesis by blast
qed

section \<open>The matcher finds only what the pattern describes\<close>

lemma first_piece_Some:
  "first_piece g m = Some (ps, r) \<longleftrightarrow> (\<exists>ps'. m = Some (ps', r) \<and> ps = g # ps')"
  by (auto simp: first_piece_def split: option.splits)

lemma grow_Some:
  "grow c m = Some (ps, r) \<longleftrightarrow> (\<exists>ps'. m = Some (ps', r) \<and> ps = (c # hd ps') # tl ps')"
  by (auto simp: grow_def split: option.splits)

text \<open>
  A successful match splits its input into one piece for each atom, each piece matched
  by its atom, and the unread rest.
\<close>

lemma bt_sound:
  "bt as s = Some (ps, r) \<Longrightarrow> s = concat ps @ r \<and> list_all2 piece_ok as ps"
proof (induction as s arbitrary: ps r rule: bt.induct)
  case (1 s)
  then show ?case by simp
next
  case (2 l as s)
  from "2.prems" have pre: "take (length l) s = l"
    and "first_piece l (bt as (drop (length l) s)) = Some (ps, r)"
    by (auto split: if_splits)
  then obtain ps' where rest: "bt as (drop (length l) s) = Some (ps', r)" and ps: "ps = l # ps'"
    by (auto simp: first_piece_Some)
  from "2.IH" [OF pre rest] have "drop (length l) s = concat ps' @ r" "list_all2 piece_ok as ps'"
    by simp_all
  moreover have "s = take (length l) s @ drop (length l) s" by simp
  ultimately show ?case using pre ps by (metis append.assoc concat.simps(2) list_all2_Cons piece_ok.simps(1))
next
  case (3 p as)
  then show ?case by simp
next
  case (4 p as c s)
  then show ?case by (auto simp: first_piece_Some split: if_splits)
next
  case (5 p as)
  then show ?case by (auto simp: first_piece_Some)
next
  case (6 p as c s)
  show ?case
  proof (cases "if p c then grow c (bt (Star p # as) s) else None")
    case None
    with "6.prems" have "first_piece [] (bt as (c # s)) = Some (ps, r)" by simp
    then obtain ps' where "bt as (c # s) = Some (ps', r)" "ps = [] # ps'"
      by (auto simp: first_piece_Some)
    with "6.IH"(2) [OF None] show ?thesis by simp
  next
    case (Some m)
    with "6.prems" have m: "m = (ps, r)" by simp
    from Some have pc: "p c" and "grow c (bt (Star p # as) s) = Some (ps, r)"
      by (auto simp: m split: if_splits)
    then obtain ps' where rest: "bt (Star p # as) s = Some (ps', r)"
      and ps: "ps = (c # hd ps') # tl ps'"
      by (auto simp: grow_Some)
    from "6.IH"(1) [OF pc rest] obtain g gs where "ps' = g # gs" "s = concat ps' @ r"
      "list_all p g" "list_all2 piece_ok as gs"
      by (auto simp: list_all2_Cons1)
    with ps pc show ?thesis by simp
  qed
next
  case (7 p as)
  then show ?case by simp
next
  case (8 p as c s)
  from "8.prems" have pc: "p c" by (auto split: if_splits)
  show ?case
  proof (cases "grow c (bt (Plus p # as) s)")
    case None
    with "8.prems" pc have "first_piece [c] (bt as s) = Some (ps, r)" by simp
    then obtain ps' where "bt as s = Some (ps', r)" "ps = [c] # ps'"
      by (auto simp: first_piece_Some)
    with "8.IH"(2) [OF pc None] pc show ?thesis by simp
  next
    case (Some m)
    with "8.prems" pc have m: "m = (ps, r)" by simp
    from Some obtain ps' where rest: "bt (Plus p # as) s = Some (ps', r)"
      and ps: "ps = (c # hd ps') # tl ps'"
      by (auto simp: grow_Some m)
    from "8.IH"(1) [OF pc rest] obtain g gs where "ps' = g # gs" "s = concat ps' @ r"
      "list_all p g" "list_all2 piece_ok as gs"
      by (auto simp: list_all2_Cons1)
    with ps pc show ?thesis by simp
  qed
next
  case (9 p as)
  then show ?case by (auto simp: first_piece_Some)
next
  case (10 p as c s)
  show ?case
  proof (cases "first_piece [] (bt as (c # s))")
    case None
    with "10.prems" have pc: "p c" and "grow c (bt (Lazy p # as) s) = Some (ps, r)"
      by (auto split: if_splits)
    then obtain ps' where rest: "bt (Lazy p # as) s = Some (ps', r)"
      and ps: "ps = (c # hd ps') # tl ps'"
      by (auto simp: grow_Some)
    from "10.IH"(2) [OF None pc rest] obtain g gs where "ps' = g # gs" "s = concat ps' @ r"
      "list_all p g" "list_all2 piece_ok as gs"
      by (auto simp: list_all2_Cons1)
    with ps pc show ?thesis by simp
  next
    case (Some m)
    with "10.prems" have "first_piece [] (bt as (c # s)) = Some (ps, r)" by simp
    then obtain ps' where "bt as (c # s) = Some (ps', r)" "ps = [] # ps'"
      by (auto simp: first_piece_Some)
    with "10.IH"(1) show ?thesis by simp
  qed
qed

text \<open>Every tuple of \<open>findall\<close> is the groups of such a split of a part of the text.\<close>

lemma findall_sound:
  "m \<in> set (findall pat s) \<Longrightarrow>
   \<exists>pre ps r. s = pre @ concat ps @ r \<and> list_all2 piece_ok (map unwrap pat) ps
      \<and> m = captures pat ps"
proof (induction pat s rule: findall.induct)
  case (1 pat s)
  have later: "\<exists>pre ps r. s = pre @ concat ps @ r \<and> list_all2 piece_ok (map unwrap pat) ps
      \<and> m = captures pat ps"
    if "\<exists>pre ps r. t = pre @ concat ps @ r \<and> list_all2 piece_ok (map unwrap pat) ps
      \<and> m = captures pat ps" and "s = u @ t" for t u
  proof -
    from that obtain pre ps r where "t = pre @ concat ps @ r"
      "list_all2 piece_ok (map unwrap pat) ps" "m = captures pat ps" by blast
    with that(2) have "s = (u @ pre) @ concat ps @ r" by simp
    with \<open>list_all2 piece_ok (map unwrap pat) ps\<close> \<open>m = captures pat ps\<close> show ?thesis by blast
  qed
  from "1.prems" have mem: "m \<in> set
     (case bt (map unwrap pat) s of
        Some (ps, r) \<Rightarrow>
          (if length r < length s then captures pat ps # findall pat r
           else captures pat ps # (case s of [] \<Rightarrow> [] | c # s' \<Rightarrow> findall pat s'))
      | None \<Rightarrow> (case s of [] \<Rightarrow> [] | c # s' \<Rightarrow> findall pat s'))"
    by (subst (asm) findall.simps)
  show ?case
  proof (cases "bt (map unwrap pat) s")
    case None
    show ?thesis
    proof (cases s)
      case Nil
      with None mem show ?thesis by simp
    next
      case (Cons c s')
      with None mem have "m \<in> set (findall pat s')" by simp
      from None Cons this have "\<exists>pre ps r. s' = pre @ concat ps @ r \<and> list_all2 piece_ok (map unwrap pat) ps
      \<and> m = captures pat ps" by (rule "1.IH")
      then show ?thesis by (rule later) (simp add: Cons)
    qed
  next
    case (Some res)
    obtain ps r where res: "res = (ps, r)" by (cases res)
    from bt_sound [OF Some [unfolded res]] have here: "s = [] @ concat ps @ r"
      and ok: "list_all2 piece_ok (map unwrap pat) ps" by simp_all
    show ?thesis
    proof (cases "m = captures pat ps")
      case True
      with here ok show ?thesis by blast
    next
      case other: False
      show ?thesis
      proof (cases "length r < length s")
        case True
        with Some res other mem have "m \<in> set (findall pat r)"
          by simp
        from Some res [symmetric] True this
        have "\<exists>pre ps r'. r = pre @ concat ps @ r' \<and> list_all2 piece_ok (map unwrap pat) ps
      \<and> m = captures pat ps" by (rule "1.IH")
        then show ?thesis by (rule later) (use here in simp)
      next
        case False
        show ?thesis
        proof (cases s)
          case Nil
          with Some res other False mem show ?thesis by simp
        next
          case (Cons c s')
          with Some res other False mem have "m \<in> set (findall pat s')"
            by simp
          from Some res [symmetric] False Cons this
          have "\<exists>pre ps r. s' = pre @ concat ps @ r \<and> list_all2 piece_ok (map unwrap pat) ps
      \<and> m = captures pat ps" by (rule "1.IH")
          then show ?thesis by (rule later) (simp add: Cons)
        qed
      qed
    qed
  qed
qed

lemma piece_ok_One: "piece_ok (One p) g \<longleftrightarrow> (\<exists>c. g = [c] \<and> p c)"
  by (auto split: list.splits)

lemma quiz_pieces:
  assumes "list_all2 piece_ok (map unwrap quiz_pattern) ps"
  obtains ds w1 q w2 w3 a w4 w5 b w6 w7 c w8 w9 d w10 w11 ans where
    "ps = [''Q'', ds, ''.'', w1, q, w2, ''A)'', w3, a, w4, ''B)'', w5, b, w6, ''C)'',
           w7, c, w8, ''D)'', w9, d, w10, ''Answer:'', w11, [ans]]"
    "ds \<noteq> []" "list_all isdigit ds"
    "list_all isspace (w1 @ w2 @ w3 @ w4 @ w5 @ w6 @ w7 @ w8 @ w9 @ w10 @ w11)"
    "letter_A_to_D ans"
  using assms
  by (auto simp: quiz_pattern_def list_all2_Cons1 piece_ok_One simp del: piece_ok.simps(2))

lemma captures_quiz_pattern:
  "captures quiz_pattern [p0, ds, p2, w1, q, w2, p6, w3, a, w4, p10, w5, b, w6, p14,
           w7, c, w8, p18, w9, d, w10, p22, w11, ans] = [ds, q, a, b, c, d, ans]"
  by (simp add: captures_def quiz_pattern_def)

section \<open>The records of \<^verbatim>\<open>parse_quiz_output\<close>\<close>

lemma parsed_of_matches_mem:
  "parsed_of_matches ms = Inr qs \<Longrightarrow> q \<in> set qs \<Longrightarrow>
   \<exists>m. m \<in> set ms \<and> parsed_of_match m = Inr q"
proof (induction ms arbitrary: qs)
  case Nil
  then show ?case by simp
next
  case (Cons m ms)
  from Cons.prems(1) obtain q0 qs0 where m: "parsed_of_match m = Inr q0"
    and ms: "parsed_of_matches ms = Inr qs0" and qs: "qs = q0 # qs0"
    by (auto split: sum.splits)
  show ?case
  proof (cases "q = q0")
    case True
    with m show ?thesis by auto
  next
    case False
    with Cons.prems(2) qs have "q \<in> set qs0" by simp
    from Cons.IH [OF ms this] show ?thesis by auto
  qed
qed

lemma strip_letter: "letter_A_to_D c \<Longrightarrow> strip [c] = [c]"
  by (auto simp: letter_A_to_D_def strip_def isspace_def whitespace_def)

text \<open>
  Where a record of \<^verbatim>\<open>parse_quiz_output\<close> comes from: the text holds a marker
  \<^verbatim>\<open>Q<digits>.\<close>, a stem, the four options after \<^verbatim>\<open>A)\<close> to \<^verbatim>\<open>D)\<close> and a letter A to D
  after \<^verbatim>\<open>Answer:\<close>, in this order, with whitespace around them; the record holds the
  number the digits denote, the stem and the options stripped (whatever characters
  they hold, newlines included), and the letter.
\<close>

lemma parse_quiz_output_record:
  assumes "parse_quiz_output quiz_text = Inr qs" and "q \<in> set qs"
  shows "\<exists>pre ds w1 stem w2 w3 a w4 w5 b w6 w7 c w8 w9 d w10 w11 ans post.
     quiz_text = pre @ ''Q'' @ ds @ ''.'' @ w1 @ stem @ w2 @ ''A)'' @ w3 @ a @ w4 @ ''B)''
                  @ w5 @ b @ w6 @ ''C)'' @ w7 @ c @ w8 @ ''D)'' @ w9 @ d @ w10 @ ''Answer:''
                  @ w11 @ [ans] @ post
     \<and> ds \<noteq> [] \<and> list_all isdigit ds
     \<and> list_all isspace (w1 @ w2 @ w3 @ w4 @ w5 @ w6 @ w7 @ w8 @ w9 @ w10 @ w11)
     \<and> letter_A_to_D ans
     \<and> py_int ds = Inr (p_question_no q)
     \<and> p_question q = strip stem \<and> p_A q = strip a \<and> p_B q = strip b
     \<and> p_C q = strip c \<and> p_D q = strip d \<and> p_answer q = [ans]"
proof -
  from assms obtain m where m: "m \<in> set (findall quiz_pattern quiz_text)"
    and q: "parsed_of_match m = Inr q"
    unfolding parse_quiz_output_def by (blast dest: parsed_of_matches_mem)
  from findall_sound [OF m] obtain pre ps post where
    whole: "quiz_text = pre @ concat ps @ post"
    and ok: "list_all2 piece_ok (map unwrap quiz_pattern) ps"
    and caps: "m = captures quiz_pattern ps" by blast
  from ok obtain ds w1 stem w2 w3 a w4 w5 b w6 w7 c w8 w9 d w10 w11 ans where
    ps: "ps = [''Q'', ds, ''.'', w1, stem, w2, ''A)'', w3, a, w4, ''B)'', w5, b, w6, ''C)'',
           w7, c, w8, ''D)'', w9, d, w10, ''Answer:'', w11, [ans]]"
    and ds: "ds \<noteq> []" "list_all isdigit ds"
    and ws: "list_all isspace (w1 @ w2 @ w3 @ w4 @ w5 @ w6 @ w7 @ w8 @ w9 @ w10 @ w11)"
    and ans: "letter_A_to_D ans"
    by (rule quiz_pieces)
  from caps have m': "m = [ds, stem, a, b, c, d, [ans]]"
    unfolding ps by (simp only: captures_quiz_pattern)
  from q have fields: "py_int ds = Inr (p_question_no q)"
     "p_question q = strip stem" "p_A q = strip a" "p_B q = strip b"
     "p_C q = strip c" "p_D q = strip d" "p_answer q = [ans]"
    unfolding m' by (auto simp: parsed_of_match_def bindE_def strip_letter [OF ans] split: sum.splits)
  have "quiz_text = pre @ ''Q'' @ ds @ ''.'' @ w1 @ stem @ w2 @ ''A)'' @ w3 @ a @ w4 @ ''B)''
                  @ w5 @ b @ w6 @ ''C)'' @ w7 @ c @ w8 @ ''D)'' @ w9 @ d @ w10 @ ''Answer:''
                  @ w11 @ [ans] @ post"
    unfolding whole ps by simp
  with ds ws ans fields show ?thesis by blast
qed

lemma parse_quiz_output_answer_letter:
  assumes "parse_quiz_output quiz_text = Inr qs" and "q \<in> set qs"
  shows "p_answer q \<in> {''A'', ''B'', ''C'', ''D''}"
proof -
  from parse_quiz_output_record [OF assms] obtain ans where
    "letter_A_to_D ans" "p_answer q = [ans]" by blast
  then show ?thesis by (auto simp: letter_A_to_D_def)
qed

lemma save_all_rows:
  "connected w \<Longrightarrow>
   save_all sk lv qs w = w\<lparr>quiz_questions := quiz_questions w @ map (qrow3 sk lv) qs\<rparr>"
  by (induction qs arbitrary: w) (simp_all add: save_question_def qrow3_def)

section \<open>The candidates of \<^verbatim>\<open>_parse_questions\<close>\<close>

lemma set_strip: "set (strip s) \<subseteq> set s"
proof -
  have "set (strip s) = set (dropWhile isspace (rev (dropWhile isspace s)))"
    by (simp add: strip_def)
  also have "\<dots> \<subseteq> set (rev (dropWhile isspace s))" by (auto dest: set_dropWhileD)
  also have "\<dots> \<subseteq> set s" by (auto dest: set_dropWhileD)
  finally show ?thesis .
qed

lemma split_chr_pieces:
  "p \<in> set (split_chr sep s) \<Longrightarrow> sep \<notin> set p \<and> set p \<subseteq> set s"
proof (induction s arbitrary: p)
  case Nil
  then show ?case by simp
next
  case (Cons c cs)
  show ?case
  proof (cases "c = sep")
    case True
    with Cons.prems have "p = [] \<or> p \<in> set (split_chr sep cs)" by simp
    with Cons.IH show ?thesis by auto
  next
    case False
    show ?thesis
    proof (cases "split_chr sep cs")
      case Nil
      with False Cons.prems show ?thesis by simp
    next
      case pieces: (Cons p0 ps)
      with False Cons.prems have "p = c # p0 \<or> p \<in> set ps" by simp
      moreover have "sep \<notin> set p0 \<and> set p0 \<subseteq> set cs"
        using Cons.IH [of p0] pieces by simp
      moreover have "sep \<notin> set p \<and> set p \<subseteq> set cs" if "p \<in> set ps"
        using Cons.IH [of p] pieces that by simp
      ultimately show ?thesis using False by auto
    qed
  qed
qed

lemma split_max_pieces:
  "p \<in> set (split_max sep n s) \<Longrightarrow> set p \<subseteq> set s"
proof (induction sep n s arbitrary: p rule: split_max.induct)
  case (1 sep s)
  then show ?case by simp
next
  case (2 sep n)
  then show ?case by simp
next
  case (3 sep n c cs)
  show ?case
  proof (cases "c = sep")
    case True
    with "3.prems" have "p = [] \<or> p \<in> set (split_max sep n cs)" by simp
    with "3.IH"(1) [OF True] show ?thesis by auto
  next
    case False
    show ?thesis
    proof (cases "split_max sep (Suc n) cs")
      case Nil
      with False "3.prems" show ?thesis by simp
    next
      case (Cons p0 ps)
      with False "3.prems" have "p = c # p0 \<or> p \<in> set ps" by simp
      moreover have "set p0 \<subseteq> set cs"
        using "3.IH"(2) [OF False, of p0] Cons by simp
      moreover have "set p \<subseteq> set cs" if "p \<in> set ps"
        using "3.IH"(2) [OF False, of p] Cons that by simp
      ultimately show ?thesis by auto
    qed
  qed
qed

lemma nth_py_mem: "nth_py xs i = Inr x \<Longrightarrow> x \<in> set xs"
  by (auto simp: nth_py_def split: if_splits)

lemma option_text_in_line:
  assumes "option_text lines i = Inr t"
  shows "\<exists>l. l \<in> set lines \<and> set t \<subseteq> set l"
proof -
  from assms obtain l u where l: "nth_py lines i = Inr l"
    and u: "nth_py (split_max (CHR '')'') 1 l) 1 = Inr u" and t: "t = strip u"
    by (auto simp: option_text_def bindE_def split: sum.splits)
  from nth_py_mem [OF u] have "set u \<subseteq> set l" by (rule split_max_pieces)
  with set_strip [of u] t nth_py_mem [OF l] show ?thesis by blast
qed

text \<open>
  Every field of a candidate of \<^verbatim>\<open>_parse_questions\<close> is taken from within one line of
  its block: it holds no newline.
\<close>

lemma parse_block_single_line:
  assumes "parse_block block = Inr q"
  shows "CHR 0x0A \<notin> set (question q) \<union> set (opt_A q) \<union> set (opt_B q) \<union> set (opt_C q)
            \<union> set (opt_D q) \<union> set (correct q)"
proof -
  define lines where "lines = split_chr (CHR 0x0A) (strip block)"
  have no_nl: "CHR 0x0A \<notin> set t" if "l \<in> set lines" "set t \<subseteq> set l" for l t
    using that split_chr_pieces [of l "CHR 0x0A" "strip block"] by (auto simp: lines_def)
  from assms obtain l0 a b c d l5 t where
    l0: "nth_py lines 0 = Inr l0" and a: "option_text lines 1 = Inr a"
    and b: "option_text lines 2 = Inr b" and c: "option_text lines 3 = Inr c"
    and d: "option_text lines 4 = Inr d" and l5: "nth_py lines 5 = Inr l5"
    and t: "nth_py (split_chr (CHR '':'') l5) 1 = Inr t"
    and q: "q = \<lparr>question = strip l0, opt_A = a, opt_B = b, opt_C = c, opt_D = d,
             correct = strip t\<rparr>"
    by (auto simp: parse_block_def bindE_def lines_def [symmetric] Let_def split: sum.splits)
  have 1: "CHR 0x0A \<notin> set (strip l0)"
    using no_nl [OF nth_py_mem [OF l0] set_strip] .
  have "set t \<subseteq> set l5" using split_chr_pieces [OF nth_py_mem [OF t]] by simp
  with set_strip [of t] have "set (strip t) \<subseteq> set l5" by blast
  from no_nl [OF nth_py_mem [OF l5] this] have 2: "CHR 0x0A \<notin> set (strip t)" .
  have 3: "CHR 0x0A \<notin> set x" if "option_text lines i = Inr x" for i x
    using option_text_in_line [OF that] no_nl by blast
  from 1 2 3 [OF a] 3 [OF b] 3 [OF c] 3 [OF d] show ?thesis by (simp add: q)
qed

lemma parse_blocks_mem:
  "parse_blocks bs = Inr qs \<Longrightarrow> q \<in> set qs \<Longrightarrow> \<exists>b. b \<in> set bs \<and> parse_block b = Inr q"
proof (induction bs arbitrary: qs)
  case Nil
  then show ?case by simp
next
  case (Cons b bs)
  from Cons.prems(1) obtain q0 qs0 where b: "parse_block b = Inr q0"
    and bs: "parse_blocks bs = Inr qs0" and qs: "qs = q0 # qs0"
    by (auto split: sum.splits)
  show ?case
  proof (cases "q = q0")
    case True
    with b show ?thesis by auto
  next
    case False
    with Cons.prems(2) qs have "q \<in> set qs0" by simp
    from Cons.IH [OF bs this] show ?thesis by auto
  qed
qed

lemma parse_questions_single_line:
  assumes "parse_questions quiz_text = Inr qs" and "q \<in> set qs"
  shows "CHR 0x0A \<notin> set (question q) \<union> set (opt_A q) \<union> set (opt_B q) \<union> set (opt_C q)
            \<union> set (opt_D q) \<union> set (correct q)"
proof -
  from assms obtain b where "parse_block b = Inr q"
    unfolding parse_questions_def by (blast dest: parse_blocks_mem)
  then show ?thesis by (rule parse_block_single_line)
qed

section \<open>Question numbers without the uniqueness filter\<close>

lemma segments_shift:
  assumes "s = concat (map (\<lambda>(skipped, ps). skipped @ concat ps) segs) @ rest"
    and "list_all (\<lambda>(skipped, ps). list_all2 piece_ok atoms ps) segs"
  shows "\<exists>segs' rest'.
      c # s = concat (map (\<lambda>(skipped, ps). skipped @ concat ps) segs') @ rest'
    \<and> list_all (\<lambda>(skipped, ps). list_all2 piece_ok atoms ps) segs'
    \<and> map snd segs' = map snd segs"
proof (cases segs)
  case Nil
  with assms have "c # s = concat (map (\<lambda>(skipped, ps). skipped @ concat ps) []) @ (c # rest)"
    by simp
  with Nil show ?thesis by (intro exI [of _ "[]"] exI [of _ "c # rest"]) simp
next
  case (Cons seg segs0)
  obtain skipped ps where seg: "seg = (skipped, ps)" by (cases seg)
  let ?segs = "(c # skipped, ps) # segs0"
  from assms Cons seg
  have "c # s = concat (map (\<lambda>(skipped, ps). skipped @ concat ps) ?segs) @ rest"
    and "list_all (\<lambda>(skipped, ps). list_all2 piece_ok atoms ps) ?segs"
    and "map snd ?segs = map snd segs"
    by simp_all
  then show ?thesis by blast
qed

text \<open>
  \<open>findall\<close> reads the text from left to right: the text is a sequence of blocks, each
  some skipped text followed by a match, and an unmatched rest; the tuples returned are
  the groups of these matches, in this order.
\<close>

lemma findall_segments:
  "\<exists>segs rest.
      s = concat (map (\<lambda>(skipped, ps). skipped @ concat ps) segs) @ rest
    \<and> list_all (\<lambda>(skipped, ps). list_all2 piece_ok (map unwrap pat) ps) segs
    \<and> findall pat s = map (captures pat) (map snd segs)"
proof (induction pat s rule: findall.induct)
  case (1 pat s)
  let ?P = "\<lambda>s ms. \<exists>segs rest.
      s = concat (map (\<lambda>(skipped, ps). skipped @ concat ps) segs) @ rest
    \<and> list_all (\<lambda>(skipped, ps). list_all2 piece_ok (map unwrap pat) ps) segs
    \<and> ms = map (captures pat) (map snd segs)"
  have unf: "findall pat s =
     (case bt (map unwrap pat) s of
        Some (ps, r) \<Rightarrow>
          (if length r < length s then captures pat ps # findall pat r
           else captures pat ps # (case s of [] \<Rightarrow> [] | c # s' \<Rightarrow> findall pat s'))
      | None \<Rightarrow> (case s of [] \<Rightarrow> [] | c # s' \<Rightarrow> findall pat s'))"
    by (rule findall.simps)
  have shift: "?P (c # t) ms" if "?P t ms" for c t ms
  proof -
    from that obtain segs rest where
      a: "t = concat (map (\<lambda>(skipped, ps). skipped @ concat ps) segs) @ rest"
      and b: "list_all (\<lambda>(skipped, ps). list_all2 piece_ok (map unwrap pat) ps) segs"
      and c: "ms = map (captures pat) (map snd segs)" by blast
    from segments_shift [OF a b, of c] obtain segs' rest' where
      a': "c # t = concat (map (\<lambda>(skipped, ps). skipped @ concat ps) segs') @ rest'"
      and b': "list_all (\<lambda>(skipped, ps). list_all2 piece_ok (map unwrap pat) ps) segs'"
      and c': "map snd segs' = map snd segs" by blast
    show ?thesis
      by (rule exI [of _ segs'], rule exI [of _ rest']) (use a' b' c' c in simp)
  qed
  have front: "?P (concat ps @ t) (captures pat ps # ms)"
    if "?P t ms" and "list_all2 piece_ok (map unwrap pat) ps" for ps t ms
  proof -
    from that obtain segs rest where
      a: "t = concat (map (\<lambda>(skipped, ps). skipped @ concat ps) segs) @ rest"
      and b: "list_all (\<lambda>(skipped, ps). list_all2 piece_ok (map unwrap pat) ps) segs"
      and c: "ms = map (captures pat) (map snd segs)" by blast
    let ?segs = "([], ps) # segs"
    show ?thesis
      by (rule exI [of _ ?segs], rule exI [of _ rest]) (use a b c that(2) in simp)
  qed
  have empty: "?P t []" for t
    by (intro exI [of _ "[]"] exI [of _ t]) simp
  show ?case
  proof (cases "bt (map unwrap pat) s")
    case None
    show ?thesis
    proof (cases s)
      case Nil
      with None unf have "findall pat s = []" by simp
      with empty [of s] show ?thesis by simp
    next
      case (Cons c s')
      with None unf have eq: "findall pat s = findall pat s'" by simp
      from None Cons have "?P s' (findall pat s')" by (rule "1.IH")
      from shift [OF this, of c] Cons eq show ?thesis by simp
    qed
  next
    case (Some res)
    obtain ps r where res: "res = (ps, r)" by (cases res)
    from bt_sound [OF Some [unfolded res]] have here: "s = concat ps @ r"
      and ok: "list_all2 piece_ok (map unwrap pat) ps" by simp_all
    show ?thesis
    proof (cases "length r < length s")
      case True
      with Some res unf have eq: "findall pat s = captures pat ps # findall pat r" by simp
      from Some res [symmetric] True have "?P r (findall pat r)" by (rule "1.IH")
      from front [OF this ok] here eq show ?thesis by simp
    next
      case False
      from here have "length s = length (concat ps) + length r" by simp
      with False have zero_len: "concat ps = []" by simp
      show ?thesis
      proof (cases s)
        case Nil
        with Some res False unf have eq: "findall pat s = [captures pat ps]" by simp
        from front [OF empty [of r] ok] here eq show ?thesis by simp
      next
        case (Cons c s')
        with Some res False unf have eq: "findall pat s = captures pat ps # findall pat s'"
          by simp
        from Some res [symmetric] False Cons have "?P s' (findall pat s')" by (rule "1.IH")
        from shift [OF this, of c] have "?P s (findall pat s')" using Cons by simp
        from front [OF this ok]
        have "?P (concat ps @ s) (captures pat ps # findall pat s')" .
        then have "?P s (captures pat ps # findall pat s')"
          by (simp only: zero_len append_Nil)
        then show ?thesis by (simp only: eq)
      qed
    qed
  qed
qed

lemma parsed_of_matches_all2:
  "parsed_of_matches ms = Inr qs \<Longrightarrow> list_all2 (\<lambda>q m. parsed_of_match m = Inr q) qs ms"
proof (induction ms arbitrary: qs)
  case Nil
  then show ?case by simp
next
  case (Cons m ms)
  from Cons.prems obtain q0 qs0 where m: "parsed_of_match m = Inr q0"
    and ms: "parsed_of_matches ms = Inr qs0" and qs: "qs = q0 # qs0"
    by (auto split: sum.splits)
  from Cons.IH [OF ms] m qs show ?case by simp
qed

text \<open>The record built from one match of the pattern.\<close>

lemma quiz_block_record:
  assumes ok: "list_all2 piece_ok (map unwrap quiz_pattern) ps"
    and q: "parsed_of_match (captures quiz_pattern ps) = Inr q"
  shows "\<exists>ds w1 stem w2 w3 a w4 w5 b w6 w7 c w8 w9 d w10 w11 ans.
       ps = [''Q'', ds, ''.'', w1, stem, w2, ''A)'', w3, a, w4, ''B)'', w5, b, w6, ''C)'',
             w7, c, w8, ''D)'', w9, d, w10, ''Answer:'', w11, [ans]]
     \<and> ds \<noteq> [] \<and> list_all isdigit ds
     \<and> list_all isspace (w1 @ w2 @ w3 @ w4 @ w5 @ w6 @ w7 @ w8 @ w9 @ w10 @ w11)
     \<and> letter_A_to_D ans
     \<and> py_int ds = Inr (p_question_no q)
     \<and> p_question q = strip stem \<and> p_A q = strip a \<and> p_B q = strip b
     \<and> p_C q = strip c \<and> p_D q = strip d \<and> p_answer q = [ans]"
proof -
  from ok obtain ds w1 stem w2 w3 a w4 w5 b w6 w7 c w8 w9 d w10 w11 ans where
    ps: "ps = [''Q'', ds, ''.'', w1, stem, w2, ''A)'', w3, a, w4, ''B)'', w5, b, w6, ''C)'',
           w7, c, w8, ''D)'', w9, d, w10, ''Answer:'', w11, [ans]]"
    and ds: "ds \<noteq> []" "list_all isdigit ds"
    and ws: "list_all isspace (w1 @ w2 @ w3 @ w4 @ w5 @ w6 @ w7 @ w8 @ w9 @ w10 @ w11)"
    and ans: "letter_A_to_D ans"
    by (rule quiz_pieces)
  have m: "captures quiz_pattern ps = [ds, stem, a, b, c, d, [ans]]"
    unfolding ps by (simp only: captures_quiz_pattern)
  from q have fields: "py_int ds = Inr (p_question_no q)"
     "p_question q = strip stem" "p_A q = strip a" "p_B q = strip b"
     "p_C q = strip c" "p_D q = strip d" "p_answer q = [ans]"
    unfolding m
    by (auto simp: parsed_of_match_def bindE_def strip_letter [OF ans] split: sum.splits)
  from ps ds ws ans fields show ?thesis by blast
qed

text \<open>
  Claim C10. In QGtestrun3.py, when the database has topics and the generated text
  parses, \<^verbatim>\<open>main\<close> inserts one question row for each parsed record, in order, and
  the row's \<^verbatim>\<open>question_no\<close> is the record's. The generated text is a sequence of
  blocks followed by a rest, one block for each record and in the order of the records;
  a block is some skipped text and then the marker \<^verbatim>\<open>Q<digits>.\<close>, the stem, the four
  options and the answer letter; and the record of a block holds the integer that the
  digits of this block's own marker denote, next to this block's stem, options and
  letter. Nothing renumbers them: the numbers are the generator's, in its order.
\<close>

theorem question_numbers_are_the_generators:
  assumes topics: "get_all_topics w \<noteq> []"
    and gen: "generate_quiz llm w sk lv n = (quiz_output, w1)"
    and parse: "parse_quiz_output quiz_output = Inr qs"
  shows "main3 llm w sk lv n
           = (Inr (), w1\<lparr>quiz_questions := quiz_questions w1 @ map (qrow3 sk lv) qs\<rparr>)
       \<and> map row_question_no (map (qrow3 sk lv) qs) = map p_question_no qs
       \<and> (\<exists>blocks rest.
             quiz_output = concat (map (\<lambda>(skipped, ps). skipped @ concat ps) blocks) @ rest
           \<and> list_all2
               (\<lambda>q (skipped, ps).
                  \<exists>ds sp1 stem sp2 sp3 a sp4 sp5 b sp6 sp7 c sp8 sp9 d sp10 sp11 ans.
                     ps = [''Q'', ds, ''.'', sp1, stem, sp2, ''A)'', sp3, a, sp4, ''B)'', sp5, b,
                           sp6, ''C)'', sp7, c, sp8, ''D)'', sp9, d, sp10, ''Answer:'', sp11, [ans]]
                   \<and> ds \<noteq> [] \<and> list_all isdigit ds
                   \<and> list_all isspace (sp1 @ sp2 @ sp3 @ sp4 @ sp5 @ sp6 @ sp7 @ sp8 @ sp9 @ sp10 @ sp11)
                   \<and> letter_A_to_D ans
                   \<and> py_int ds = Inr (p_question_no q)
                   \<and> p_question q = strip stem \<and> p_A q = strip a \<and> p_B q = strip b
                   \<and> p_C q = strip c \<and> p_D q = strip d \<and> p_answer q = [ans])
               qs blocks)"
proof -
  from topics have "connected w" by (auto simp: get_all_topics_def split: if_splits)
  with gen have con: "connected w1"
    by (auto simp: generate_quiz_def Let_def split: if_splits)
  have 1: "main3 llm w sk lv n
           = (Inr (), w1\<lparr>quiz_questions := quiz_questions w1 @ map (qrow3 sk lv) qs\<rparr>)"
    using topics gen parse by (simp add: main3_def save_all_rows [OF con])
  have 2: "map row_question_no (map (qrow3 sk lv) qs) = map p_question_no qs"
    by (simp add: qrow3_def)
  from findall_segments [of quiz_output quiz_pattern] obtain blocks rest where
    whole: "quiz_output = concat (map (\<lambda>(skipped, ps). skipped @ concat ps) blocks) @ rest"
    and ok: "list_all (\<lambda>(skipped, ps). list_all2 piece_ok (map unwrap quiz_pattern) ps) blocks"
    and ms: "findall quiz_pattern quiz_output = map (captures quiz_pattern) (map snd blocks)"
    by blast
  from parse have "list_all2 (\<lambda>q m. parsed_of_match m = Inr q) qs
      (map (captures quiz_pattern) (map snd blocks))"
    unfolding parse_quiz_output_def ms by (rule parsed_of_matches_all2)
  then have each: "list_all2 (\<lambda>q blk. parsed_of_match (captures quiz_pattern (snd blk)) = Inr q)
      qs blocks"
    by (simp add: list_all2_map2)
  have 3: "list_all2
               (\<lambda>q (skipped, ps).
                  \<exists>ds sp1 stem sp2 sp3 a sp4 sp5 b sp6 sp7 c sp8 sp9 d sp10 sp11 ans.
                     ps = [''Q'', ds, ''.'', sp1, stem, sp2, ''A)'', sp3, a, sp4, ''B)'', sp5, b,
                           sp6, ''C)'', sp7, c, sp8, ''D)'', sp9, d, sp10, ''Answer:'', sp11, [ans]]
                   \<and> ds \<noteq> [] \<and> list_all isdigit ds
                   \<and> list_all isspace (sp1 @ sp2 @ sp3 @ sp4 @ sp5 @ sp6 @ sp7 @ sp8 @ sp9 @ sp10 @ sp11)
                   \<and> letter_A_to_D ans
                   \<and> py_int ds = Inr (p_question_no q)
                   \<and> p_question q = strip stem \<and> p_A q = strip a \<and> p_B q = strip b
                   \<and> p_C q = strip c \<and> p_D q = strip d \<and> p_answer q = [ans])
               qs blocks"
    using each
  proof (rule list.rel_mono_strong)
    fix q blk
    assume "blk \<in> set blocks" and rec: "parsed_of_match (captures quiz_pattern (snd blk)) = Inr q"
    obtain skipped ps where blk: "blk = (skipped, ps)" by (cases blk)
    from ok \<open>blk \<in> set blocks\<close> blk
    have "list_all2 piece_ok (map unwrap quiz_pattern) ps" by (auto simp: list_all_iff)
    from quiz_block_record [OF this] rec blk
    show "(case blk of (skipped, ps) \<Rightarrow>
                  \<exists>ds sp1 stem sp2 sp3 a sp4 sp5 b sp6 sp7 c sp8 sp9 d sp10 sp11 ans.
                     ps = [''Q'', ds, ''.'', sp1, stem, sp2, ''A)'', sp3, a, sp4, ''B)'', sp5, b,
                           sp6, ''C)'', sp7, c, sp8, ''D)'', sp9, d, sp10, ''Answer:'', sp11, [ans]]
                   \<and> ds \<noteq> [] \<and> list_all isdigit ds
                   \<and> list_all isspace (sp1 @ sp2 @ sp3 @ sp4 @ sp5 @ sp6 @ sp7 @ sp8 @ sp9 @ sp10 @ sp11)
                   \<and> letter_A_to_D ans
                   \<and> py_int ds = Inr (p_question_no q)
                   \<and> p_question q = strip stem \<and> p_A q = strip a \<and> p_B q = strip b
                   \<and> p_C q = strip c \<and> p_D q = strip d \<and> p_answer q = [ans])"
      by simp
  qed
  from whole 3 have "\<exists>blocks rest.
             quiz_output = concat (map (\<lambda>(skipped, ps). skipped @ concat ps) blocks) @ rest
           \<and> list_all2
               (\<lambda>q (skipped, ps).
                  \<exists>ds sp1 stem sp2 sp3 a sp4 sp5 b sp6 sp7 c sp8 sp9 d sp10 sp11 ans.
                     ps = [''Q'', ds, ''.'', sp1, stem, sp2, ''A)'', sp3, a, sp4, ''B)'', sp5, b,
                           sp6, ''C)'', sp7, c, sp8, ''D)'', sp9, d, sp10, ''Answer:'', sp11, [ans]]
                   \<and> ds \<noteq> [] \<and> list_all isdigit ds
                   \<and> list_all isspace (sp1 @ sp2 @ sp3 @ sp4 @ sp5 @ sp6 @ sp7 @ sp8 @ sp9 @ sp10 @ sp11)
                   \<and> letter_A_to_D ans
                   \<and> py_int ds = Inr (p_question_no q)
                   \<and> p_question q = strip stem \<and> p_A q = strip a \<and> p_B q = strip b
                   \<and> p_C q = strip c \<and> p_D q = strip d \<and> p_answer q = [ans])
               qs blocks"
    by (intro exI [of _ blocks] exI [of _ rest] conjI)
  with 1 2 show ?thesis by (intro conjI)
qed

text \<open>
  The text with the markers Q7, Q7, Q3: the rows stored carry the numbers 7, 7, 3,
  neither sequential nor distinct nor starting at 1.
\<close>

theorem question_numbers_are_the_generators_witness:
  "get_all_topics algorithms_db = [''Algorithms'']
   \<and> parse_quiz_output two_questions = Inr three_parsed
   \<and> main3 llm_two algorithms_db ''Algorithms'' ''Beginner'' 3
       = (Inr (),
          algorithms_db
            \<lparr>prompts_sent := [build_prompt3 ''Algorithms'' ''Beginner'' 3
                                 ''Binary search operates on sorted arrays.''],
             quiz_questions := map (qrow3 ''Algorithms'' ''Beginner'') three_parsed\<rparr>)
   \<and> map row_question_no (map (qrow3 ''Algorithms'' ''Beginner'') three_parsed) = [7, 7, 3]"
proof -
  let ?w1 = "algorithms_db
            \<lparr>prompts_sent := [build_prompt3 ''Algorithms'' ''Beginner'' 3
                                 ''Binary search operates on sorted arrays.'']\<rparr>"
  have topics: "get_all_topics algorithms_db = [''Algorithms'']"
    by (simp add: get_all_topics_def algorithms_db_def empty_db_def)
  then have nonempty: "get_all_topics algorithms_db \<noteq> []" by simp
  have stripped: "strip two_questions = two_questions" by code_simp
  have gen: "generate_quiz llm_two algorithms_db ''Algorithms'' ''Beginner'' 3
               = (two_questions, ?w1)"
    by (simp add: generate_quiz_def get_content_for_skill3_def algorithms_db_def empty_db_def
        llm_two_def stripped Let_def)
  have parse: "parse_quiz_output two_questions = Inr three_parsed" by code_simp
  note inst = question_numbers_are_the_generators [where llm = llm_two, OF nonempty gen parse]
  from inst [THEN conjunct1] inst [THEN conjunct2, THEN conjunct1]
  have "main3 llm_two algorithms_db ''Algorithms'' ''Beginner'' 3
       = (Inr (),
          algorithms_db
            \<lparr>prompts_sent := [build_prompt3 ''Algorithms'' ''Beginner'' 3
                                 ''Binary search operates on sorted arrays.''],
             quiz_questions := map (qrow3 ''Algorithms'' ''Beginner'') three_parsed\<rparr>)"
    and "map row_question_no (map (qrow3 ''Algorithms'' ''Beginner'') three_parsed)
           = map p_question_no three_parsed"
    by (simp_all add: algorithms_db_def empty_db_def)
  with topics parse show ?thesis by (simp add: three_parsed_def)
qed

section \<open>Where \<^verbatim>\<open>_parse_questions\<close> and \<^verbatim>\<open>generate_unique_questions\<close> part from \<^verbatim>\<open>parse_quiz_output\<close> and \<^verbatim>\<open>generate_quiz\<close>\<close>

text \<open>
  Claim C1 says that the parser never raises and drops a block that does not yield a
  stem, four options and an answer. On a text whose second block is cut off after
  option B, \<^verbatim>\<open>_parse_questions\<close> raises IndexError (the first, well-formed question is
  lost with it), and \<^verbatim>\<open>main\<close> of QGtestrun4.py ends with that exception;
  \<^verbatim>\<open>parse_quiz_output\<close> returns the first question and drops the incomplete block.
\<close>

theorem parse_questions_raises_on_short_block:
  "parse_questions truncated_text = Inl IndexError
   \<and> fst (main4 llm_truncated empty_db 7 ''Algorithms'' ''Beginner'' 1) = Inl IndexError
   \<and> parse_quiz_output truncated_text =
        Inr [\<lparr>p_question_no = 1, p_question = ''S1'', p_A = ''a'', p_B = ''b'', p_C = ''c'',
              p_D = ''d'', p_answer = ''B''\<rparr>]"
proof -
  have 1: "parse_questions truncated_text = Inl IndexError" by code_simp
  then have 2: "fst (main4 llm_truncated empty_db 7 ''Algorithms'' ''Beginner'' 1) = Inl IndexError"
    by (simp add: main4_def generate_unique_questions_def llm_truncated_def)
  have 3: "parse_quiz_output truncated_text =
        Inr [\<lparr>p_question_no = 1, p_question = ''S1'', p_A = ''a'', p_B = ''b'', p_C = ''c'',
              p_D = ''d'', p_answer = ''B''\<rparr>]" by code_simp
  from 1 2 3 show ?thesis by blast
qed

text \<open>
  Claim C7 says that the answer of every record is one of the letters A, B, C, D. On an
  answer line "Answer: B) b", \<^verbatim>\<open>_parse_questions\<close> stores "B) b" as the answer, which
  no upper-cased single letter equals; \<^verbatim>\<open>parse_quiz_output\<close> stores "B" (lemma
  \<open>parse_quiz_output_answer_letter\<close>: always one of the four letters).
\<close>

theorem parse_questions_keeps_any_answer_text:
  "parse_questions answer_with_option_text =
     Inr [\<lparr>question = ''S1'', opt_A = ''a'', opt_B = ''b'', opt_C = ''c'', opt_D = ''d'',
           correct = ''B) b''\<rparr>]
   \<and> parse_quiz_output answer_with_option_text =
        Inr [\<lparr>p_question_no = 1, p_question = ''S1'', p_A = ''a'', p_B = ''b'', p_C = ''c'',
              p_D = ''d'', p_answer = ''B''\<rparr>]"
  by code_simp

text \<open>
  Claim C6 says that every field is the source text stripped, with the newlines inside a
  stem or an option kept. On a stem of two lines, \<^verbatim>\<open>_parse_questions\<close> keeps the first
  line as the stem and reads the second line as option A, every later field moving
  down by one (lemma \<open>parse_questions_single_line\<close>: none of its fields ever holds a
  newline); \<^verbatim>\<open>parse_quiz_output\<close> returns the stem with its newline and the options
  as written (lemma \<open>parse_quiz_output_record\<close>).
\<close>

theorem parse_questions_cuts_stem_at_newline:
  "parse_questions two_line_stem =
     Inr [\<lparr>question = ''Two'', opt_A = ''here'', opt_B = ''a'', opt_C = ''b'', opt_D = ''c'',
           correct = ''e''\<rparr>]
   \<and> parse_quiz_output two_line_stem =
        Inr [\<lparr>p_question_no = 1, p_question = ''Two\<newline>lines) here'', p_A = ''a'', p_B = ''b'',
              p_C = ''c'', p_D = ''d: e'', p_answer = ''A''\<rparr>]"
  by code_simp

text \<open>
  Claim C8 says that with empty content for the topic the generation service is never
  called. On a database without content for the skill, \<^verbatim>\<open>generate_unique_questions\<close>
  sends its prompt with an empty context whatever the service answers, and accepts and
  stores the questions that come back; \<^verbatim>\<open>generate_quiz\<close> of QGtestrun3.py returns
  "No content found for skill: ..." and sends nothing.
\<close>

theorem generation_called_without_content:
  "get_content_for_skill empty_db ''Algorithms'' = []
   \<and> prompts_sent (snd (generate_unique_questions llm empty_db 7 ''Algorithms'' ''Beginner'' 2))
       = [build_prompt4 ''Algorithms'' ''Beginner'' 4 []]
   \<and> generate_unique_questions llm_two empty_db 7 ''Algorithms'' ''Beginner'' 2 =
       (Inr (Questions [accept (with_stem ''S1'') 1 ''Algorithms'' ''Beginner'',
                        accept (with_stem ''S2'') 2 ''Algorithms'' ''Beginner'']),
        empty_db\<lparr>prompts_sent := [build_prompt4 ''Algorithms'' ''Beginner'' 4 []],
                 resume_history := [(7, ''S1''), (7, ''S2'')],
                 quiz_questions :=
                   [qrow_of (accept (with_stem ''S1'') 1 ''Algorithms'' ''Beginner''),
                    qrow_of (accept (with_stem ''S2'') 2 ''Algorithms'' ''Beginner'')]\<rparr>)
   \<and> generate_quiz llm empty_db ''Algorithms'' ''Beginner'' 2
       = (''No content found for skill: Algorithms'', empty_db)"
proof -
  have content: "get_content_for_skill empty_db ''Algorithms'' = []"
    by (simp add: get_content_for_skill_def empty_db_def)
  have sent: "prompts_sent (snd (generate_unique_questions llm empty_db 7 ''Algorithms'' ''Beginner'' 2))
       = [build_prompt4 ''Algorithms'' ''Beginner'' 4 []]"
  proof (cases "parse_questions (llm (build_prompt4 ''Algorithms'' ''Beginner'' 4 []))")
    case (Inl e)
    then show ?thesis
      by (simp add: generate_unique_questions_def content) (simp add: empty_db_def)
  next
    case (Inr cs)
    let ?w0 = "empty_db\<lparr>prompts_sent := prompts_sent empty_db @ [build_prompt4 ''Algorithms'' ''Beginner'' 4 []]\<rparr>"
    obtain f q w2 where run: "unique_loop 7 ''Algorithms'' ''Beginner'' 2 cs [] 1 ?w0 = (f, q, w2)"
      by (cases "unique_loop 7 ''Algorithms'' ''Beginner'' 2 cs [] 1 ?w0") auto
    from unique_loop_frame [OF run] have "prompts_sent w2 = [build_prompt4 ''Algorithms'' ''Beginner'' 4 []]"
      by (simp add: empty_db_def)
    with Inr run show ?thesis
      by (simp add: generate_unique_questions_def content)
  qed
  have parse: "parse_questions two_questions = Inr [with_stem ''S1'', with_stem ''S2'', with_stem ''S4'']"
    by code_simp
  have run: "generate_unique_questions llm_two empty_db 7 ''Algorithms'' ''Beginner'' 2 =
       (Inr (Questions [accept (with_stem ''S1'') 1 ''Algorithms'' ''Beginner'',
                        accept (with_stem ''S2'') 2 ''Algorithms'' ''Beginner'']),
        empty_db\<lparr>prompts_sent := [build_prompt4 ''Algorithms'' ''Beginner'' 4 []],
                 resume_history := [(7, ''S1''), (7, ''S2'')],
                 quiz_questions :=
                   [qrow_of (accept (with_stem ''S1'') 1 ''Algorithms'' ''Beginner''),
                    qrow_of (accept (with_stem ''S2'') 2 ''Algorithms'' ''Beginner'')]\<rparr>)"
    by (simp add: generate_unique_questions_def llm_two_def parse get_content_for_skill_def
        empty_db_def with_stem_def question_used_before_def store_question_def
        store_used_question_def qrow_of_def accept_def)
  have sibling: "generate_quiz llm empty_db ''Algorithms'' ''Beginner'' 2
       = (''No content found for skill: Algorithms'', empty_db)"
    by (simp add: generate_quiz_def get_content_for_skill3_def empty_db_def)
  from content sent run sibling show ?thesis by blast
qed

end
